theory Spec2Isabelle
  imports Complex_Main "HOL-Library.Word" "HOL-Library.Log_Nat"
begin

section \<open>The import script of gpuinfo.net (scripts/import-data.ts)\<close>

subsection \<open>Array.prototype.slice and chunk\<close>

text \<open>
  JavaScript's \<^verbatim>\<open>arr.slice(start, end)\<close> on integral arguments: a negative index counts
  from the end of the array, both indices are clamped to \<open>0 .. arr.length\<close>, and an empty
  array comes back when the end is not after the start.
\<close>

definition rel_index :: "nat \<Rightarrow> int \<Rightarrow> nat" where
  "rel_index len k = (if k < 0 then nat (max (int len + k) 0) else min (nat k) len)"

definition slice :: "'a list \<Rightarrow> int \<Rightarrow> int \<Rightarrow> 'a list" where
  "slice arr start fin =
     (let k = rel_index (length arr) start; final = rel_index (length arr) fin
      in take (final - k) (drop k arr))"

text \<open>
  \<^verbatim>\<open>
  function chunk<T>(arr: T[], size: number): T[][] {
    const chunks: T[][] = []
    for (let i = 0; i < arr.length; i += size) {
      chunks.push(arr.slice(i, i + size))
    }
    return chunks
  }
  \<close>
  The size is a JavaScript number; the model covers the integral ones, of either sign.
  The loop has no bound of its own, so it is a partial function: \<open>None\<close> says that the
  loop never leaves (it pushes groups until the engine gives up) and no array is returned.
\<close>

partial_function (option) chunk_loop ::
  "'a list \<Rightarrow> int \<Rightarrow> int \<Rightarrow> 'a list list \<Rightarrow> 'a list list option" where
  "chunk_loop arr sz i chunks =
     (if i < int (length arr)
      then chunk_loop arr sz (i + sz) (chunks @ [slice arr i (i + sz)])
      else Some chunks)"

declare chunk_loop.simps [code]

definition chunk :: "'a list \<Rightarrow> int \<Rightarrow> 'a list list option" where
  "chunk arr sz = chunk_loop arr sz 0 []"

text \<open>
  The closed form of what the loop builds for a positive size, used in the proofs below:
  the first \<open>n\<close> elements, then the groups of the rest.
\<close>

function groups :: "nat \<Rightarrow> 'a list \<Rightarrow> 'a list list" where
  "groups n xs = (if xs = [] \<or> n = 0 then [] else take n xs # groups n (drop n xs))"
  by pat_completeness auto
termination
  by (relation "measure (\<lambda>(n, xs). length xs)") auto

declare groups.simps [simp del]

subsection \<open>Strings and sanitizeString\<close>

text \<open>
  A JavaScript string is a sequence of 16-bit code units; \<open>ascii\<close> writes one from an
  ASCII literal. An argument typed \<^verbatim>\<open>string | null | undefined\<close> is a \<open>nullable\<close>.
\<close>

type_synonym js_string = "16 word list"

definition ascii :: "string \<Rightarrow> js_string" where
  "ascii s = map (\<lambda>c. of_nat (of_char c)) s"

datatype 'a nullable = Null | Undefined | Val 'a

text \<open>The character class \<^verbatim>\<open>[\x00-\x08\x0B\x0C\x0E-\x1F]\<close>.\<close>

definition is_control :: "16 word \<Rightarrow> bool" where
  "is_control c = (c \<le> 0x08 \<or> c = 0x0B \<or> c = 0x0C \<or> (0x0E \<le> c \<and> c \<le> 0x1F))"

text \<open>
  What \<^verbatim>\<open>String.prototype.trim\<close> strips: the white space and line terminator code
  points of ECMAScript (tab, LF, VT, FF, CR, space, NBSP, U+1680, U+2000 to U+200A, U+2028,
  U+2029, U+202F, U+205F, U+3000 and the byte order mark).
\<close>

definition is_space :: "16 word \<Rightarrow> bool" where
  "is_space c =
     ((0x09 \<le> c \<and> c \<le> 0x0D) \<or> c = 0x20 \<or> c = 0xA0 \<or> c = 0x1680 \<or>
      (0x2000 \<le> c \<and> c \<le> 0x200A) \<or> c = 0x2028 \<or> c = 0x2029 \<or> c = 0x202F \<or>
      c = 0x205F \<or> c = 0x3000 \<or> c = 0xFEFF)"

definition trim :: "js_string \<Rightarrow> js_string" where
  "trim s = rev (dropWhile is_space (rev (dropWhile is_space s)))"

text \<open>
  \<^verbatim>\<open>
  function sanitizeString(str: string | null | undefined): string {
    if (!str) return ''
    return str.replace(/[\x00-\x08\x0B\x0C\x0E-\x1F]/g, '').trim()
  }
  \<close>
\<close>

definition sanitizeString :: "js_string nullable \<Rightarrow> js_string" where
  "sanitizeString str =
     (case str of
        Val s \<Rightarrow> (if s = [] then [] else trim (filter (\<lambda>c. \<not> is_control c) s))
      | _ \<Rightarrow> [])"

subsection \<open>streamJsonArray\<close>

text \<open>
  The reader is an event-driven program: listeners on the parse pipeline, and reactions to
  the promises the caller's processor returns. It is modelled as a state machine. The
  state holds the variables of the closure (\<open>batch\<close>, \<open>totalProcessed\<close>, \<open>batchCount\<close>,
  \<open>promises\<close>), what the pipeline has still to emit and whether it is paused or over, every
  call of the processor made so far with the state of the promise it returned, the
  \<^verbatim>\<open>Promise.all\<close> groups that are waited for, the state of the promise that
  \<^verbatim>\<open>streamJsonArray\<close> itself returned, and whether the process has been brought down by
  an error nobody listens for. A promise in \<open>promises\<close> is named by the number of the call
  that returned it.
\<close>

datatype 'e promise = Unsettled | Fulfilled | Rejected 'e

datatype 'e settlement = Pending | Resolved nat | Failed 'e

record ('a, 'e) reader =
  batch :: "'a list"
  totalProcessed :: nat
  batchCount :: nat
  promises :: "nat list"
  invocations :: "('a list \<times> 'e promise) list"
  source :: "'a list"
  paused :: bool
  finished :: bool
  awaited :: "nat list option"
  flushing :: "nat list option"
  outcome :: "'e settlement"
  halted :: bool

definition CONCURRENCY :: nat where
  "CONCURRENCY = 3"

definition promise_of :: "('a, 'e) reader \<Rightarrow> nat \<Rightarrow> 'e promise" where
  "promise_of s k = (if k < length (invocations s) then snd (invocations s ! k) else Unsettled)"

text \<open>The calls of the processor whose promise has not settled yet.\<close>

definition in_flight :: "('a, 'e) reader \<Rightarrow> nat" where
  "in_flight s = length (filter (\<lambda>c. snd c = Unsettled) (invocations s))"

text \<open>
  \<^verbatim>\<open>Promise.all\<close> over promises some of which have settled already: it rejects with the
  reason of the first rejected one in array order, and is fulfilled when all are.
\<close>

fun first_rejected :: "('a, 'e) reader \<Rightarrow> nat list \<Rightarrow> 'e option" where
  "first_rejected s [] = None"
| "first_rejected s (k # ks) =
     (case promise_of s k of Rejected e \<Rightarrow> Some e | _ \<Rightarrow> first_rejected s ks)"

definition all_fulfilled :: "('a, 'e) reader \<Rightarrow> nat list \<Rightarrow> bool" where
  "all_fulfilled s ks = list_all (\<lambda>k. promise_of s k = Fulfilled) ks"

text \<open>The \<open>resolve\<close> and \<open>reject\<close> of the returned promise: only the first call counts.\<close>

definition resolve :: "nat \<Rightarrow> ('a, 'e) reader \<Rightarrow> ('a, 'e) reader" where
  "resolve n s = (if outcome s = Pending then s\<lparr>outcome := Resolved n\<rparr> else s)"

definition reject :: "'e \<Rightarrow> ('a, 'e) reader \<Rightarrow> ('a, 'e) reader" where
  "reject e s = (if outcome s = Pending then s\<lparr>outcome := Failed e\<rparr> else s)"

text \<open>\<^verbatim>\<open>promises.push(processor(b))\<close>: the processor is called and its promise is kept.\<close>

definition call_processor :: "'a list \<Rightarrow> ('a, 'e) reader \<Rightarrow> ('a, 'e) reader" where
  "call_processor b s =
     s\<lparr>invocations := invocations s @ [(b, Unsettled)],
       promises := promises s @ [length (invocations s)]\<rparr>"

text \<open>
  \<^verbatim>\<open>Promise.all(group).then(() => { ...; pipeline.resume() }).catch(reject)\<close>, for a
  group taken out of \<open>promises\<close>. When the group is settled already the reaction is a
  microtask that runs before the pipeline can emit again, so it is taken at once.
\<close>

definition await_group :: "nat list \<Rightarrow> ('a, 'e) reader \<Rightarrow> ('a, 'e) reader" where
  "await_group g s =
     (case first_rejected s g of
        Some e \<Rightarrow> reject e s
      | None \<Rightarrow> if all_fulfilled s g then s\<lparr>paused := False\<rparr> else s\<lparr>awaited := Some g\<rparr>)"

text \<open>
  \<^verbatim>\<open>
  pipeline.on('data', ({ value }: { value: T }) => {
    batch.push(value)
    if (batch.length >= batchSize) {
      const currentBatch = batch
      batch = []
      batchCount++
      totalProcessed += currentBatch.length
      // Process up to CONCURRENCY batches in parallel
      if (promises.length >= CONCURRENCY) {
        pipeline.pause()
        Promise.all(promises.splice(0, CONCURRENCY))
          .then(() => {
            process.stdout.write(...)
            pipeline.resume()
          })
          .catch(reject)
      }
      promises.push(processor(currentBatch))
    }
  })
  \<close>
\<close>

definition on_data :: "int \<Rightarrow> 'a \<Rightarrow> ('a, 'e) reader \<Rightarrow> ('a, 'e) reader" where
  "on_data batchSize v s =
     (let currentBatch = batch s @ [v] in
      if batchSize \<le> int (length currentBatch) then
        (let s1 = s\<lparr>batch := [], batchCount := batchCount s + 1,
                     totalProcessed := totalProcessed s + length currentBatch\<rparr>;
             s2 = (if CONCURRENCY \<le> length (promises s1)
                   then await_group (take CONCURRENCY (promises s1))
                          (s1\<lparr>paused := True, promises := drop CONCURRENCY (promises s1)\<rparr>)
                   else s1)
         in call_processor currentBatch s2)
      else s\<lparr>batch := currentBatch\<rparr>)"

text \<open>
  \<^verbatim>\<open>
  pipeline.on('end', async () => {
    // Process remaining batch
    if (batch.length > 0) {
      promises.push(processor(batch))
      totalProcessed += batch.length
    }
    // Wait for all promises to complete
    await Promise.all(promises)
    console.log(...)
    resolve(totalProcessed)
  })
  \<close>
  The listener is an async function: when the awaited \<^verbatim>\<open>Promise.all\<close> rejects, it is the
  listener's own promise that rejects, which the emitter drops; neither \<open>resolve\<close> nor
  \<open>reject\<close> is called.
\<close>

definition await_all :: "nat list \<Rightarrow> ('a, 'e) reader \<Rightarrow> ('a, 'e) reader" where
  "await_all g s =
     (case first_rejected s g of
        Some e \<Rightarrow> s
      | None \<Rightarrow> if all_fulfilled s g then resolve (totalProcessed s) s
                else s\<lparr>flushing := Some g\<rparr>)"

definition on_end :: "('a, 'e) reader \<Rightarrow> ('a, 'e) reader" where
  "on_end s =
     (let s1 = (if batch s \<noteq> []
                then (call_processor (batch s) s)
                       \<lparr>totalProcessed := totalProcessed s + length (batch s)\<rparr>
                else s)
      in await_all (promises s1) (s1\<lparr>finished := True\<rparr>))"

text \<open>The reactions that run when the promise of call \<open>k\<close> has just settled.\<close>

definition group_reaction :: "nat \<Rightarrow> ('a, 'e) reader \<Rightarrow> ('a, 'e) reader" where
  "group_reaction k s =
     (case awaited s of
        None \<Rightarrow> s
      | Some g \<Rightarrow>
          if k \<in> set g then
            (case promise_of s k of
               Rejected e \<Rightarrow> reject e (s\<lparr>awaited := None\<rparr>)
             | _ \<Rightarrow> if all_fulfilled s g then s\<lparr>awaited := None, paused := False\<rparr> else s)
          else s)"

definition flush_reaction :: "nat \<Rightarrow> ('a, 'e) reader \<Rightarrow> ('a, 'e) reader" where
  "flush_reaction k s =
     (case flushing s of
        None \<Rightarrow> s
      | Some g \<Rightarrow>
          if k \<in> set g then
            (case promise_of s k of
               Rejected e \<Rightarrow> s\<lparr>flushing := None\<rparr>
             | _ \<Rightarrow> if all_fulfilled s g
                    then resolve (totalProcessed s) (s\<lparr>flushing := None\<rparr>) else s)
          else s)"

definition settle :: "nat \<Rightarrow> 'e promise \<Rightarrow> ('a, 'e) reader \<Rightarrow> ('a, 'e) reader option" where
  "settle k p s =
     (if \<not> halted s \<and> k < length (invocations s) \<and> snd (invocations s ! k) = Unsettled
      then Some (flush_reaction k (group_reaction k
             (s\<lparr>invocations := (invocations s)[k := (fst (invocations s ! k), p)]\<rparr>)))
      else None)"

text \<open>
  \<^verbatim>\<open>
  const pipeline = createReadStream(path)
    .pipe(parser())
    .pipe(streamArray())
  ...
  pipeline.on('error', reject)
  \<close>
  What can happen next. The pipeline emits the next element (\<open>Data\<close>), but not while it
  is paused. It emits its end (\<open>End\<close>) once every element has been emitted; that can be
  while it is paused, when the element whose listener paused it was the last one and the
  stream had seen the end of its input already, or after it has been resumed. The last
  stage, which is the stream that \<^verbatim>\<open>pipeline\<close> names, emits an error (\<open>Error\<close>): this is
  the only error that the listener \<open>reject\<close> hears. The file stream or the parser emits an
  error (\<open>StageError\<close>, a read error or a JSON syntax error): \<^verbatim>\<open>pipe\<close> does not pass errors
  on and nothing listens on these stages, so the error is thrown as an uncaught exception,
  the process ends and nothing more happens. Or the promise of a call settles (\<open>Fulfil\<close>,
  \<open>Reject\<close>). A pipeline that has ended or failed emits nothing more. \<open>None\<close> says that
  the event cannot happen in this state.
\<close>

datatype 'e event = Data | End | Error 'e | StageError 'e | Fulfil nat | Reject nat 'e

fun step :: "int \<Rightarrow> ('a, 'e) reader \<Rightarrow> 'e event \<Rightarrow> ('a, 'e) reader option" where
  "step batchSize s Data =
     (if halted s \<or> paused s \<or> finished s then None
      else (case source s of
              [] \<Rightarrow> None
            | v # rest \<Rightarrow> Some (on_data batchSize v (s\<lparr>source := rest\<rparr>))))"
| "step batchSize s End =
     (if halted s \<or> finished s \<or> source s \<noteq> [] then None else Some (on_end s))"
| "step batchSize s (Error e) =
     (if halted s \<or> finished s then None else Some (reject e (s\<lparr>finished := True\<rparr>)))"
| "step batchSize s (StageError e) =
     (if halted s \<or> finished s then None else Some (s\<lparr>halted := True\<rparr>))"
| "step batchSize s (Fulfil k) = settle k Fulfilled s"
| "step batchSize s (Reject k e) = settle k (Rejected e) s"

fun run :: "int \<Rightarrow> ('a, 'e) reader \<Rightarrow> 'e event list \<Rightarrow> ('a, 'e) reader option" where
  "run batchSize s [] = Some s"
| "run batchSize s (ev # evs) =
     (case step batchSize s ev of None \<Rightarrow> None | Some s' \<Rightarrow> run batchSize s' evs)"

text \<open>The state in which \<^verbatim>\<open>streamJsonArray\<close> returns its promise, for a file that holds \<open>xs\<close>.\<close>

definition streamJsonArray :: "'a list \<Rightarrow> ('a, 'e) reader" where
  "streamJsonArray xs =
     \<lparr>batch = [], totalProcessed = 0, batchCount = 0, promises = [], invocations = [],
      source = xs, paused = False, finished = False, awaited = None, flushing = None,
      outcome = Pending, halted = False\<rparr>"

text \<open>
  Two invariants for the proofs below. \<open>counted N\<close>: of the \<open>N\<close> elements of the file,
  those not yet emitted, those in the open batch and those counted add up to \<open>N\<close>, and
  once the end listener has run the count is \<open>N\<close>. \<open>quiet\<close>: the reader is running and
  every call made so far has been fulfilled.
\<close>

definition counted :: "nat \<Rightarrow> ('a, 'e) reader \<Rightarrow> bool" where
  "counted N s =
     ((finished s \<or> totalProcessed s + length (batch s) + length (source s) = N \<and> flushing s = None) \<and>
      (flushing s = None \<or> totalProcessed s = N) \<and>
      (case outcome s of Resolved n \<Rightarrow> n = N | _ \<Rightarrow> True))"


text \<open>
  For the bound on the calls in flight: \<open>covered s ks\<close> says that every call whose promise
  has not settled is named in \<open>ks\<close>, and \<open>bounded\<close> is the invariant of the reader: at
  most \<open>CONCURRENCY\<close> promises are kept, they cover the calls in flight together with the
  group that is waited for, they cover them alone while the pipeline flows, and the open
  batch is empty while it is paused.
\<close>

definition covered :: "('a, 'e) reader \<Rightarrow> nat list \<Rightarrow> bool" where
  "covered s ks =
     list_all (\<lambda>k. snd (invocations s ! k) = Unsettled \<longrightarrow> k \<in> set ks) [0 ..< length (invocations s)]"

definition bounded :: "('a, 'e) reader \<Rightarrow> bool" where
  "bounded s =
     (in_flight s \<le> CONCURRENCY + 1 \<and>
      (finished s \<or>
       (length (promises s) \<le> CONCURRENCY \<and>
        (case awaited s of None \<Rightarrow> True | Some g \<Rightarrow> covered s (promises s @ g)) \<and>
        ((paused s \<and> batch s = []) \<or> (awaited s = None \<and> covered s (promises s))))))"

subsection \<open>processBatches\<close>

text \<open>
  \<^verbatim>\<open>
  async function processBatches<T, R>(items: T[], batchSize: number, concurrency: number,
    processor: (batch: T[], batchIndex: number) => Promise<R>): Promise<R[]> {
    const batches = chunk(items, batchSize)
    const results: R[] = []
    for (let i = 0; i < batches.length; i += concurrency) {
      const concurrentBatches = batches.slice(i, i + concurrency)
      const batchResults = await Promise.all(
        concurrentBatches.map((batch, idx) => processor(batch, i + idx))
      )
      results.push(...batchResults)
      ... progress output ...
    }
    console.log()
    return results
  }
  \<close>
  An async function runs until its \<^verbatim>\<open>await\<close> and is resumed when the awaited promise
  is fulfilled; a rejection of the awaited promise is thrown at the \<^verbatim>\<open>await\<close> and, not
  being caught, rejects the promise of the function. The state holds the local variables
  (the loop variable \<open>i\<close> as \<open>loop_i\<close>), every call of the processor made so far (its
  two arguments and the state of the promise it returned), the calls the pending \<^verbatim>\<open>Promise.all\<close> waits for, and the state of the
  promise of \<^verbatim>\<open>processBatches\<close>. The field \<open>started\<close> is a history for the statements
  below and nothing reads it: the batch indices of each wave, in the order of the calls.
\<close>

datatype ('r, 'e) future = Outstanding | Value 'r | Reason 'e

datatype ('r, 'e) completion = Active | Completed "'r list" | Aborted 'e

record ('a, 'r, 'e) runner =
  batches :: "'a list list"
  concurrency :: int
  loop_i :: int
  results :: "'r list"
  calls :: "(('a list \<times> int) \<times> ('r, 'e) future) list"
  wave :: "nat list"
  status :: "('r, 'e) completion"
  started :: "int list list"

definition future_of :: "('a, 'r, 'e) runner \<Rightarrow> nat \<Rightarrow> ('r, 'e) future" where
  "future_of s k = (if k < length (calls s) then snd (calls s ! k) else Outstanding)"

definition has_value :: "('r, 'e) future \<Rightarrow> bool" where
  "has_value f = (case f of Value r \<Rightarrow> True | _ \<Rightarrow> False)"

text \<open>
  From the loop test to the \<^verbatim>\<open>await\<close>, or to the \<^verbatim>\<open>return\<close>: the processor is called for
  every batch of the slice, in order, before anything is awaited.
\<close>

definition iterate :: "('a, 'r, 'e) runner \<Rightarrow> ('a, 'r, 'e) runner" where
  "iterate s =
     (if loop_i s < int (length (batches s)) then
        (let concurrentBatches = slice (batches s) (loop_i s) (loop_i s + concurrency s);
             args = map (\<lambda>(idx, b). (b, loop_i s + int idx)) (enumerate 0 concurrentBatches)
         in s\<lparr>calls := calls s @ map (\<lambda>a. (a, Outstanding)) args,
              wave := [length (calls s) ..< length (calls s) + length args],
              started := started s @ [map snd args]\<rparr>)
      else s\<lparr>status := Completed (results s)\<rparr>)"

text \<open>After the \<^verbatim>\<open>await\<close>: the results of the wave are appended in the order of the calls.\<close>

definition resume :: "('a, 'r, 'e) runner \<Rightarrow> ('a, 'r, 'e) runner" where
  "resume s =
     iterate
       (s\<lparr>results := results s @
            concat (map (\<lambda>k. case future_of s k of Value r \<Rightarrow> [r] | _ \<Rightarrow> []) (wave s)),
          loop_i := loop_i s + concurrency s\<rparr>)"

text \<open>
  The events: the promise of call \<open>k\<close> is fulfilled with a value or rejected with a
  reason, or the function is resumed after an \<^verbatim>\<open>await\<close> whose promises are all fulfilled.
  The first rejection inside the awaited wave rejects \<^verbatim>\<open>Promise.all\<close>, and with it the
  promise of \<^verbatim>\<open>processBatches\<close>; the function is never resumed after that.
\<close>

datatype ('r, 'e) signal = Returns nat 'r | Throws nat 'e | Wake

definition settle_call ::
  "nat \<Rightarrow> ('r, 'e) future \<Rightarrow> ('a, 'r, 'e) runner \<Rightarrow> ('a, 'r, 'e) runner option" where
  "settle_call k f s =
     (if k < length (calls s) \<and> snd (calls s ! k) = Outstanding
      then Some (s\<lparr>calls := (calls s)[k := (fst (calls s ! k), f)]\<rparr>)
      else None)"

fun advance :: "('a, 'r, 'e) runner \<Rightarrow> ('r, 'e) signal \<Rightarrow> ('a, 'r, 'e) runner option" where
  "advance s (Returns k r) = settle_call k (Value r) s"
| "advance s (Throws k e) =
     (case settle_call k (Reason e) s of
        None \<Rightarrow> None
      | Some s' \<Rightarrow>
          Some (if status s' = Active \<and> k \<in> set (wave s') then s'\<lparr>status := Aborted e\<rparr> else s'))"
| "advance s Wake =
     (if status s = Active \<and> list_all (\<lambda>k. has_value (future_of s k)) (wave s)
      then Some (resume s) else None)"

fun advances :: "('a, 'r, 'e) runner \<Rightarrow> ('r, 'e) signal list \<Rightarrow> ('a, 'r, 'e) runner option" where
  "advances s [] = Some s"
| "advances s (g # gs) = (case advance s g of None \<Rightarrow> None | Some s' \<Rightarrow> advances s' gs)"

text \<open>
  The call itself, up to the first \<^verbatim>\<open>await\<close>. It never gets there when \<open>chunk\<close> does not
  return.
\<close>

definition processBatches :: "'a list \<Rightarrow> int \<Rightarrow> int \<Rightarrow> ('a, 'r, 'e) runner option" where
  "processBatches items batchSize conc =
     (case chunk items batchSize of
        None \<Rightarrow> None
      | Some bs \<Rightarrow>
          Some (iterate \<lparr>batches = bs, concurrency = conc, loop_i = 0, results = [], calls = [],
                         wave = [], status = Active, started = []\<rparr>))"

text \<open>
  The invariant of the barrier: while the function is active, every call outside the
  awaited wave has been fulfilled with a value, and the wave names calls that were made.
\<close>

definition joined :: "('a, 'r, 'e) runner \<Rightarrow> bool" where
  "joined s =
     (status s \<noteq> Active \<or>
      (list_all (\<lambda>k. k < length (calls s)) (wave s) \<and>
       list_all (\<lambda>k. k \<in> set (wave s) \<or> has_value (snd (calls s ! k))) [0 ..< length (calls s)]))"

subsection \<open>importExtensions: the bulk upsert of extensions\<close>

text \<open>
  The table \<^verbatim>\<open>extensions\<close> of \<^verbatim>\<open>src/db/schema.ts\<close>: a serial \<^verbatim>\<open>id\<close>, a unique
  \<^verbatim>\<open>name\<close>, a nullable date and two flags. A value to insert has the same columns
  without the id.
\<close>

record extension_value =
  name :: js_string
  dateAdded :: "js_string option"
  hasFeatures :: bool
  hasProperties :: bool

record extension_row = extension_value +
  row_id :: nat

record extensions_table =
  table_rows :: "extension_row list"
  next_id :: nat

text \<open>An entry of \<^verbatim>\<open>extensions.json\<close> (\<^verbatim>\<open>interface ExtensionJson\<close>).\<close>

record ExtensionJson =
  json_name :: js_string
  coverage :: js_string
  coverage_unsupported :: js_string
  features_url :: "js_string option"
  properties_url :: "js_string option"
  date :: js_string

definition INSERT_BATCH_SIZE :: int where
  "INSERT_BATCH_SIZE = 100"

text \<open>
  \<^verbatim>\<open>
  const extensionValues = extensionsData.map(ext => ({
    name: ext.name,
    dateAdded: ext.date || null,
    hasFeatures: ext.features_url !== null,
    hasProperties: ext.properties_url !== null,
  }))
  \<close>
\<close>

definition extensionValues :: "ExtensionJson list \<Rightarrow> extension_value list" where
  "extensionValues extensionsData =
     map (\<lambda>ext. \<lparr>name = json_name ext,
                  dateAdded = (if date ext = [] then None else Some (date ext)),
                  hasFeatures = (features_url ext \<noteq> None),
                  hasProperties = (properties_url ext \<noteq> None)\<rparr>) extensionsData"

text \<open>
  \<^verbatim>\<open>
  .onConflictDoUpdate({
    target: schema.extensions.name,
    set: {
      dateAdded: schema.extensions.dateAdded,
      hasFeatures: schema.extensions.hasFeatures,
      hasProperties: schema.extensions.hasProperties,
    }
  })
  \<close>
  The right-hand sides are the columns of the table \<^verbatim>\<open>extensions\<close> itself. In the
  statement this builds, \<^verbatim>\<open>ON CONFLICT (name) DO UPDATE SET date_added =
  extensions.date_added, ...\<close>, a column of the target table stands for the value of the
  row already stored; the row proposed for insertion would be \<^verbatim>\<open>excluded\<close>, which the
  code does not mention. The assignment takes the stored row and the proposed one.
\<close>

definition conflict_set :: "extension_row \<Rightarrow> extension_value \<Rightarrow> extension_row" where
  "conflict_set existing excluded =
     existing\<lparr>dateAdded := dateAdded existing,
              hasFeatures := hasFeatures existing,
              hasProperties := hasProperties existing\<rparr>"

text \<open>
  The database, as far as the statement needs it (PostgreSQL's
  \<^verbatim>\<open>INSERT ... ON CONFLICT (name) DO UPDATE SET ... RETURNING id, name\<close>): every proposed
  row draws the next value of the serial; a proposed row whose name is stored already
  updates the stored row by the assignment, any other is appended; either way the row is
  returned. A statement that proposes the same name twice fails as a whole.
\<close>

datatype db_error = CardinalityViolation

fun upsert_rows ::
  "extension_value list \<Rightarrow> extensions_table \<Rightarrow> extensions_table \<times> (nat \<times> js_string) list" where
  "upsert_rows [] t = (t, [])"
| "upsert_rows (v # vs) t =
     (let t1 = (if name v \<in> set (map name (table_rows t))
                then t\<lparr>table_rows :=
                         map (\<lambda>r. if name r = name v then conflict_set r v else r) (table_rows t),
                       next_id := next_id t + 1\<rparr>
                else t\<lparr>table_rows := table_rows t @
                         [\<lparr>name = name v, dateAdded = dateAdded v, hasFeatures = hasFeatures v,
                           hasProperties = hasProperties v, row_id = next_id t\<rparr>],
                       next_id := next_id t + 1\<rparr>);
          returned = map (\<lambda>r. (row_id r, name r)) (filter (\<lambda>r. name r = name v) (table_rows t1));
          (t2, rest) = upsert_rows vs t1
      in (t2, returned @ rest))"

definition insert_extensions ::
  "extension_value list \<Rightarrow> extensions_table \<Rightarrow>
   db_error + extensions_table \<times> (nat \<times> js_string) list" where
  "insert_extensions vals t =
     (if distinct (map name vals) then Inr (upsert_rows vals t) else Inl CardinalityViolation)"

text \<open>
  \<^verbatim>\<open>
  const extensionMap = new Map<string, number>()
  ...
  for (const batch of chunk(extensionValues, INSERT_BATCH_SIZE)) {
    const results = await db.insert(schema.extensions).values(batch)
      .onConflictDoUpdate({ ... })
      .returning({ id: schema.extensions.id, name: schema.extensions.name })
    for (const r of results) {
      extensionMap.set(r.name, r.id)
    }
  }
  \<close>
  A failing statement is thrown out of \<^verbatim>\<open>importExtensions\<close>.
\<close>

fun set_all :: "(nat \<times> js_string) list \<Rightarrow> (js_string \<rightharpoonup> nat) \<Rightarrow> (js_string \<rightharpoonup> nat)" where
  "set_all [] extensionMap = extensionMap"
| "set_all (r # rs) extensionMap = set_all rs (extensionMap(snd r \<mapsto> fst r))"

fun insert_batches ::
  "extension_value list list \<Rightarrow> extensions_table \<times> (js_string \<rightharpoonup> nat) \<Rightarrow>
   db_error + extensions_table \<times> (js_string \<rightharpoonup> nat)" where
  "insert_batches [] st = Inr st"
| "insert_batches (b # bs) (t, extensionMap) =
     (case insert_extensions b t of
        Inl err \<Rightarrow> Inl err
      | Inr (t', rs) \<Rightarrow> insert_batches bs (t', set_all rs extensionMap))"

definition importExtensions ::
  "ExtensionJson list \<Rightarrow> extensions_table \<Rightarrow>
   (db_error + extensions_table \<times> (js_string \<rightharpoonup> nat)) option" where
  "importExtensions extensionsData t =
     map_option (\<lambda>bs. insert_batches bs (t, Map.empty))
       (chunk (extensionValues extensionsData) INSERT_BATCH_SIZE)"

subsection \<open>importDevices: staging the rows of a batch\<close>

text \<open>
  A device report is whatever the file holds at that place of the array: a JSON value
  (the interface \<^verbatim>\<open>DeviceReportJson\<close> is not checked at run time). An object is the
  list of its properties, each key once; a key is written as the bytes of its text.
  The result of reading a property is a JSON value or \<^verbatim>\<open>undefined\<close>, here \<open>None\<close>.
  Numbers are kept exact.
\<close>

datatype json =
    JNull
  | JBool bool
  | JNumber rat
  | JString js_string
  | JArray "json list"
  | JObject "(string \<times> json) list"

datatype js_error = TypeError

definition and_then :: "js_error + 'a \<Rightarrow> ('a \<Rightarrow> js_error + 'b) \<Rightarrow> js_error + 'b" where
  "and_then r f = (case r of Inl e \<Rightarrow> Inl e | Inr x \<Rightarrow> f x)"

text \<open>
  \<^verbatim>\<open>v.key\<close>: a \<^verbatim>\<open>TypeError\<close> on \<^verbatim>\<open>null\<close> and \<^verbatim>\<open>undefined\<close>, the property of an object,
  and \<^verbatim>\<open>undefined\<close> on anything else (none of the keys the importer reads is a built-in
  property of a string, a number, a boolean or an array). \<^verbatim>\<open>v?.key\<close> gives \<^verbatim>\<open>undefined\<close>
  instead of the error.
\<close>

definition get :: "json option \<Rightarrow> string \<Rightarrow> js_error + json option" where
  "get v key =
     (case v of
        None \<Rightarrow> Inl TypeError
      | Some JNull \<Rightarrow> Inl TypeError
      | Some (JObject kvs) \<Rightarrow> Inr (map_of kvs key)
      | Some _ \<Rightarrow> Inr None)"

definition get_opt :: "json option \<Rightarrow> string \<Rightarrow> json option" where
  "get_opt v key = (case get v key of Inl e \<Rightarrow> None | Inr x \<Rightarrow> x)"

definition truthy :: "json option \<Rightarrow> bool" where
  "truthy v =
     (case v of
        None \<Rightarrow> False
      | Some JNull \<Rightarrow> False
      | Some (JBool b) \<Rightarrow> b
      | Some (JNumber n) \<Rightarrow> n \<noteq> 0
      | Some (JString s) \<Rightarrow> s \<noteq> []
      | Some _ \<Rightarrow> True)"

text \<open>
  \<^verbatim>\<open>for (const x of v)\<close>: the elements of an array, the code points of a string (a
  surrogate pair is one of them), and a \<^verbatim>\<open>TypeError\<close> for everything else, which is not
  iterable.
\<close>

fun code_points :: "js_string \<Rightarrow> js_string list" where
  "code_points (h # l # cs) =
     (if 0xD800 \<le> h \<and> h \<le> 0xDBFF \<and> 0xDC00 \<le> l \<and> l \<le> 0xDFFF
      then [h, l] # code_points cs else [h] # code_points (l # cs))"
| "code_points [c] = [[c]]"
| "code_points [] = []"

definition elements_of :: "json option \<Rightarrow> js_error + json list" where
  "elements_of v =
     (case v of
        Some (JArray xs) \<Rightarrow> Inr xs
      | Some (JString s) \<Rightarrow> Inr (map JString (code_points s))
      | _ \<Rightarrow> Inl TypeError)"

text \<open>
  \<^verbatim>\<open>sanitizeString\<close> applied to what a report holds: a falsy value gives the empty
  string, a string is sanitized, and any other value has no \<^verbatim>\<open>replace\<close> to call.
\<close>

definition sanitize_value :: "json option \<Rightarrow> js_error + js_string" where
  "sanitize_value v =
     (if \<not> truthy v then Inr []
      else (case v of Some (JString s) \<Rightarrow> Inr (sanitizeString (Val s)) | _ \<Rightarrow> Inl TypeError))"

text \<open>
  \<^verbatim>\<open>
  function getPlatform(ostype: number): string {
    switch (ostype) {
      case 0: return 'windows'
      case 1: return 'linux'
      case 2: return 'android'
      case 3: return 'macos'
      case 4: return 'ios'
      default: return 'linux'
    }
  }
  \<close>
\<close>

definition getPlatform :: "json option \<Rightarrow> js_string" where
  "getPlatform ostype =
     (case ostype of
        Some (JNumber n) \<Rightarrow>
          (if n = 0 then ascii ''windows'' else if n = 1 then ascii ''linux''
           else if n = 2 then ascii ''android'' else if n = 3 then ascii ''macos''
           else if n = 4 then ascii ''ios'' else ascii ''linux'')
      | _ \<Rightarrow> ascii ''linux'')"

text \<open>
  The seven staged row sets of \<^verbatim>\<open>processBatch\<close>, and the error counter of
  \<^verbatim>\<open>importDevices\<close>. Rows that have a field in common share it through a parent record;
  the field \<^verbatim>\<open>value\<close> of an extended property is \<open>property_value\<close>.
\<close>

record staged_row =
  reportId :: "json option"

record device_value = staged_row +
  deviceName :: js_string
  vendorId :: "json option"
  deviceId :: "json option"
  deviceType :: js_string
  apiVersion :: js_string
  apiVersionRaw :: "json option"
  driverVersion :: js_string
  driverVersionRaw :: "json option"
  platform :: js_string
  osName :: js_string
  osVersion :: js_string
  architecture :: js_string
  submitter :: js_string

record device_ext_value = staged_row +
  extensionId :: nat
  specVersion :: "json option"

record device_limits_value = staged_row +
  limits :: "json option"
  sparseProperties :: "json option"
  subgroupProperties :: "json option"

record core_row = staged_row +
  coreVersion :: string

record core_features_value = core_row +
  features :: "json option"

record core_props_value = core_row +
  properties :: "json option"

record extended_row = staged_row +
  extensionName :: "json option"

record ext_features_value = extended_row +
  featureName :: "json option"
  supported :: "json option"

record ext_props_value = extended_row +
  propertyName :: "json option"
  property_value :: "json option"

record staged =
  deviceValues :: "device_value list"
  deviceExtValues :: "device_ext_value list"
  deviceLimitsValues :: "device_limits_value list"
  coreFeaturesValues :: "core_features_value list"
  corePropsValues :: "core_props_value list"
  extFeaturesValues :: "ext_features_value list"
  extPropsValues :: "ext_props_value list"
  totalErrors :: nat

text \<open>\<^verbatim>\<open>report.a.b\<close> and \<^verbatim>\<open>sanitizeString(report.a.b)\<close>.\<close>

definition field :: "json option \<Rightarrow> string \<Rightarrow> string \<Rightarrow> js_error + json option" where
  "field report a b = and_then (get report a) (\<lambda>x. get x b)"

definition clean :: "json option \<Rightarrow> string \<Rightarrow> string \<Rightarrow> js_error + js_string" where
  "clean report a b = and_then (field report a b) sanitize_value"

text \<open>
  The first statement of the \<^verbatim>\<open>try\<close> block: the object passed to
  \<^verbatim>\<open>deviceValues.push\<close>. Its fields are evaluated before anything is pushed.
  \<^verbatim>\<open>
  deviceValues.push({
    reportId: report._report_id,
    deviceName: sanitizeString(report.properties.deviceName),
    vendorId: report.properties.vendorID,
    deviceId: report.properties.deviceID,
    deviceType: sanitizeString(report.properties.deviceTypeText),
    apiVersion: sanitizeString(report.properties.apiVersionText),
    apiVersionRaw: report.properties.apiVersion,
    driverVersion: sanitizeString(report.properties.driverVersionText),
    driverVersionRaw: report.properties.driverVersion,
    platform: getPlatform(report.environment.ostype),
    osName: sanitizeString(report.environment.name),
    osVersion: sanitizeString(report.environment.version),
    architecture: sanitizeString(report.environment.architecture),
    submitter: sanitizeString(report.environment.submitter),
  })
  \<close>
\<close>

definition device_row :: "json option \<Rightarrow> js_error + device_value" where
  "device_row report =
     and_then (get report ''_report_id'') (\<lambda>rid.
     and_then (clean report ''properties'' ''deviceName'') (\<lambda>dn.
     and_then (field report ''properties'' ''vendorID'') (\<lambda>vid.
     and_then (field report ''properties'' ''deviceID'') (\<lambda>did.
     and_then (clean report ''properties'' ''deviceTypeText'') (\<lambda>dt.
     and_then (clean report ''properties'' ''apiVersionText'') (\<lambda>av.
     and_then (field report ''properties'' ''apiVersion'') (\<lambda>avr.
     and_then (clean report ''properties'' ''driverVersionText'') (\<lambda>dv.
     and_then (field report ''properties'' ''driverVersion'') (\<lambda>dvr.
     and_then (field report ''environment'' ''ostype'') (\<lambda>os.
     and_then (clean report ''environment'' ''name'') (\<lambda>osn.
     and_then (clean report ''environment'' ''version'') (\<lambda>osv.
     and_then (clean report ''environment'' ''architecture'') (\<lambda>arch.
     and_then (clean report ''environment'' ''submitter'') (\<lambda>sub.
       Inr \<lparr>reportId = rid, deviceName = dn, vendorId = vid, deviceId = did, deviceType = dt,
            apiVersion = av, apiVersionRaw = avr, driverVersion = dv, driverVersionRaw = dvr,
            platform = getPlatform os, osName = osn, osVersion = osv, architecture = arch,
            submitter = sub\<rparr>))))))))))))))"

text \<open>
  A statement of the block gives the staged rows after it and the error it threw, if
  any; what was pushed before a throw stays pushed. \<open>next_stmt\<close> runs a statement when
  the ones before it have not thrown.
\<close>

type_synonym stmt_result = "staged \<times> js_error option"

definition next_stmt :: "stmt_result \<Rightarrow> (staged \<Rightarrow> stmt_result) \<Rightarrow> stmt_result" where
  "next_stmt r f = (case r of (st, None) \<Rightarrow> f st | (st, Some e) \<Rightarrow> (st, Some e))"

definition push_device :: "json option \<Rightarrow> staged \<Rightarrow> stmt_result" where
  "push_device report st =
     (case device_row report of
        Inl e \<Rightarrow> (st, Some e)
      | Inr row \<Rightarrow> (st\<lparr>deviceValues := deviceValues st @ [row]\<rparr>, None))"

text \<open>
  \<^verbatim>\<open>
  if (report.extensions) {
    for (const ext of report.extensions) {
      const extId = extensionMap.get(ext.extensionName)
      if (extId) {
        deviceExtValues.push({
          reportId: report._report_id,
          extensionId: extId,
          specVersion: ext.specVersion,
        })
      }
    }
  }
  \<close>
  The map has strings for keys, so any other key is not found.
\<close>

definition map_get :: "(js_string \<rightharpoonup> nat) \<Rightarrow> json option \<Rightarrow> nat option" where
  "map_get extensionMap key = (case key of Some (JString s) \<Rightarrow> extensionMap s | _ \<Rightarrow> None)"

fun push_extensions ::
  "(js_string \<rightharpoonup> nat) \<Rightarrow> json option \<Rightarrow> json list \<Rightarrow> staged \<Rightarrow> stmt_result" where
  "push_extensions extensionMap report [] st = (st, None)"
| "push_extensions extensionMap report (ext # exts) st =
     (case get (Some ext) ''extensionName'' of
        Inl e \<Rightarrow> (st, Some e)
      | Inr nm \<Rightarrow>
          (case map_get extensionMap nm of
             None \<Rightarrow> push_extensions extensionMap report exts st
           | Some extId \<Rightarrow>
               if extId = 0 then push_extensions extensionMap report exts st
               else (case and_then (get report ''_report_id'') (\<lambda>rid.
                          and_then (get (Some ext) ''specVersion'') (\<lambda>sv.
                            Inr \<lparr>reportId = rid, extensionId = extId, specVersion = sv\<rparr>)) of
                       Inl e \<Rightarrow> (st, Some e)
                     | Inr row \<Rightarrow>
                         push_extensions extensionMap report exts
                           (st\<lparr>deviceExtValues := deviceExtValues st @ [row]\<rparr>))))"

definition stage_extensions :: "(js_string \<rightharpoonup> nat) \<Rightarrow> json option \<Rightarrow> staged \<Rightarrow> stmt_result" where
  "stage_extensions extensionMap report st =
     (case get report ''extensions'' of
        Inl e \<Rightarrow> (st, Some e)
      | Inr exts \<Rightarrow>
          if truthy exts then
            (case elements_of exts of
               Inl e \<Rightarrow> (st, Some e)
             | Inr xs \<Rightarrow> push_extensions extensionMap report xs st)
          else (st, None))"

text \<open>
  \<^verbatim>\<open>
  deviceLimitsValues.push({
    reportId: report._report_id,
    limits: report.properties.limits || {},
    sparseProperties: report.properties.sparseProperties || {},
    subgroupProperties: report.properties.subgroupProperties || {},
  })
  \<close>
\<close>

definition or_empty :: "json option \<Rightarrow> json option" where
  "or_empty v = (if truthy v then v else Some (JObject []))"

definition push_limits :: "json option \<Rightarrow> staged \<Rightarrow> stmt_result" where
  "push_limits report st =
     (case and_then (get report ''_report_id'') (\<lambda>rid.
           and_then (field report ''properties'' ''limits'') (\<lambda>l.
           and_then (field report ''properties'' ''sparseProperties'') (\<lambda>sp.
           and_then (field report ''properties'' ''subgroupProperties'') (\<lambda>sg.
             Inr \<lparr>reportId = rid, limits = or_empty l, sparseProperties = or_empty sp,
                  subgroupProperties = or_empty sg\<rparr>)))) of
        Inl e \<Rightarrow> (st, Some e)
      | Inr row \<Rightarrow> (st\<lparr>deviceLimitsValues := deviceLimitsValues st @ [row]\<rparr>, None))"

text \<open>
  \<^verbatim>\<open>
  const coreVersions = ['core11', 'core12', 'core13', 'core14'] as const
  for (const coreVersion of coreVersions) {
    const coreData = report[coreVersion]
    if (coreData?.features) {
      coreFeaturesValues.push({ reportId: report._report_id, coreVersion, features: coreData.features })
    }
    if (coreData?.properties) {
      corePropsValues.push({ reportId: report._report_id, coreVersion, properties: coreData.properties })
    }
  }
  \<close>
\<close>

definition push_core_features :: "json option \<Rightarrow> string \<Rightarrow> json option \<Rightarrow> staged \<Rightarrow> stmt_result" where
  "push_core_features report cv coreData st =
     (if truthy (get_opt coreData ''features'') then
        (case and_then (get report ''_report_id'') (\<lambda>rid.
              and_then (get coreData ''features'') (\<lambda>f.
                Inr \<lparr>reportId = rid, coreVersion = cv, features = f\<rparr>)) of
           Inl e \<Rightarrow> (st, Some e)
         | Inr row \<Rightarrow> (st\<lparr>coreFeaturesValues := coreFeaturesValues st @ [row]\<rparr>, None))
      else (st, None))"

definition push_core_props :: "json option \<Rightarrow> string \<Rightarrow> json option \<Rightarrow> staged \<Rightarrow> stmt_result" where
  "push_core_props report cv coreData st =
     (if truthy (get_opt coreData ''properties'') then
        (case and_then (get report ''_report_id'') (\<lambda>rid.
              and_then (get coreData ''properties'') (\<lambda>p.
                Inr \<lparr>reportId = rid, coreVersion = cv, properties = p\<rparr>)) of
           Inl e \<Rightarrow> (st, Some e)
         | Inr row \<Rightarrow> (st\<lparr>corePropsValues := corePropsValues st @ [row]\<rparr>, None))
      else (st, None))"

fun stage_core :: "json option \<Rightarrow> string list \<Rightarrow> staged \<Rightarrow> stmt_result" where
  "stage_core report [] st = (st, None)"
| "stage_core report (cv # others) st =
     (case get report cv of
        Inl e \<Rightarrow> (st, Some e)
      | Inr coreData \<Rightarrow>
          next_stmt (next_stmt (push_core_features report cv coreData st)
                       (push_core_props report cv coreData))
            (stage_core report others))"

text \<open>
  \<^verbatim>\<open>
  if (report.extended?.devicefeatures2) {
    for (const f of report.extended.devicefeatures2) {
      extFeaturesValues.push({
        reportId: report._report_id,
        extensionName: f.extension,
        featureName: f.name,
        supported: f.supported,
      })
    }
  }
  if (report.extended?.deviceproperties2) {
    for (const p of report.extended.deviceproperties2) {
      extPropsValues.push({
        reportId: report._report_id,
        extensionName: p.extension,
        propertyName: p.name,
        value: p.value,
      })
    }
  }
  \<close>
\<close>

fun push_ext_features :: "json option \<Rightarrow> json list \<Rightarrow> staged \<Rightarrow> stmt_result" where
  "push_ext_features report [] st = (st, None)"
| "push_ext_features report (f # fs) st =
     (case and_then (get report ''_report_id'') (\<lambda>rid.
           and_then (get (Some f) ''extension'') (\<lambda>e.
           and_then (get (Some f) ''name'') (\<lambda>n.
           and_then (get (Some f) ''supported'') (\<lambda>s.
             Inr \<lparr>reportId = rid, extensionName = e, featureName = n, supported = s\<rparr>)))) of
        Inl e \<Rightarrow> (st, Some e)
      | Inr row \<Rightarrow>
          push_ext_features report fs (st\<lparr>extFeaturesValues := extFeaturesValues st @ [row]\<rparr>))"

fun push_ext_props :: "json option \<Rightarrow> json list \<Rightarrow> staged \<Rightarrow> stmt_result" where
  "push_ext_props report [] st = (st, None)"
| "push_ext_props report (p # ps) st =
     (case and_then (get report ''_report_id'') (\<lambda>rid.
           and_then (get (Some p) ''extension'') (\<lambda>e.
           and_then (get (Some p) ''name'') (\<lambda>n.
           and_then (get (Some p) ''value'') (\<lambda>v.
             Inr \<lparr>reportId = rid, extensionName = e, propertyName = n, property_value = v\<rparr>)))) of
        Inl e \<Rightarrow> (st, Some e)
      | Inr row \<Rightarrow>
          push_ext_props report ps (st\<lparr>extPropsValues := extPropsValues st @ [row]\<rparr>))"

definition stage_extended ::
  "(json option \<Rightarrow> json list \<Rightarrow> staged \<Rightarrow> stmt_result) \<Rightarrow> string \<Rightarrow> json option \<Rightarrow> staged \<Rightarrow>
   stmt_result" where
  "stage_extended push key report st =
     (case get report ''extended'' of
        Inl e \<Rightarrow> (st, Some e)
      | Inr extended \<Rightarrow>
          if truthy (get_opt extended key) then
            (case and_then (get extended key) elements_of of
               Inl e \<Rightarrow> (st, Some e)
             | Inr xs \<Rightarrow> push report xs st)
          else (st, None))"

text \<open>The body of the \<^verbatim>\<open>try\<close> block for one report.\<close>

definition try_block :: "(js_string \<rightharpoonup> nat) \<Rightarrow> json option \<Rightarrow> staged \<Rightarrow> stmt_result" where
  "try_block extensionMap report st =
     next_stmt (next_stmt (next_stmt (next_stmt (next_stmt
       (push_device report st)
       (stage_extensions extensionMap report))
       (push_limits report))
       (stage_core report [''core11'', ''core12'', ''core13'', ''core14'']))
       (stage_extended push_ext_features ''devicefeatures2'' report))
       (stage_extended push_ext_props ''deviceproperties2'' report)"

text \<open>
  \<^verbatim>\<open>
  for (const report of batch) {
    try {
      ...
    } catch (error) {
      totalErrors++
    }
  }
  \<close>
\<close>

fun stage_reports :: "(js_string \<rightharpoonup> nat) \<Rightarrow> json list \<Rightarrow> staged \<Rightarrow> staged" where
  "stage_reports extensionMap [] st = st"
| "stage_reports extensionMap (report # others) st =
     (case try_block extensionMap (Some report) st of
        (st', None) \<Rightarrow> stage_reports extensionMap others st'
      | (st', Some e) \<Rightarrow>
          stage_reports extensionMap others (st'\<lparr>totalErrors := totalErrors st' + 1\<rparr>))"

definition no_rows :: staged where
  "no_rows =
     \<lparr>deviceValues = [], deviceExtValues = [], deviceLimitsValues = [], coreFeaturesValues = [],
      corePropsValues = [], extFeaturesValues = [], extPropsValues = [], totalErrors = 0\<rparr>"

text \<open>
  For the statements about a batch: \<open>extend st c\<close> is \<open>st\<close> with the rows of \<open>c\<close> appended
  to each of the seven sets, and \<open>combine\<close> also counts an error.
\<close>

definition extend :: "staged \<Rightarrow> staged \<Rightarrow> staged" where
  "extend st c =
     st\<lparr>deviceValues := deviceValues st @ deviceValues c,
        deviceExtValues := deviceExtValues st @ deviceExtValues c,
        deviceLimitsValues := deviceLimitsValues st @ deviceLimitsValues c,
        coreFeaturesValues := coreFeaturesValues st @ coreFeaturesValues c,
        corePropsValues := corePropsValues st @ corePropsValues c,
        extFeaturesValues := extFeaturesValues st @ extFeaturesValues c,
        extPropsValues := extPropsValues st @ extPropsValues c\<rparr>"

definition combine :: "staged \<Rightarrow> stmt_result \<Rightarrow> staged" where
  "combine st r =
     (extend st (fst r))\<lparr>totalErrors := totalErrors st + (case snd r of None \<Rightarrow> 0 | Some e \<Rightarrow> 1)\<rparr>"

text \<open>A statement that only appends rows, the same ones whatever was staged before.\<close>

definition additive :: "(staged \<Rightarrow> stmt_result) \<Rightarrow> bool" where
  "additive f = (\<forall>st. f st = (extend st (fst (f no_rows)), snd (f no_rows)))"

subsection \<open>parseCoverage\<close>

text \<open>
  A number is a binary64 value. The ones that \<^verbatim>\<open>parseCoverage\<close> can return are not
  negative: a finite value, kept as the rational it is, \<open>Infinity\<close>, or \<open>NaN\<close>.
\<close>

datatype js_number = NaN | Infinity | Num rat

definition is_digit :: "16 word \<Rightarrow> bool" where
  "is_digit c = (0x30 \<le> c \<and> c \<le> 0x39)"

text \<open>The character class \<^verbatim>\<open>[\d.]\<close>.\<close>

definition in_class :: "16 word \<Rightarrow> bool" where
  "in_class c = (is_digit c \<or> c = 0x2E)"

text \<open>
  \<^verbatim>\<open>html.match(/>([\d.]+)</)\<close>: the capture group of the leftmost match, if there is
  one. At a \<^verbatim>\<open>>\<close> the greedy class takes the whole run of digits and dots; the
  character after the run is not in the class, so a shorter run cannot be followed by
  \<^verbatim>\<open><\<close> either, and the match at this position succeeds exactly when the whole run is
  not empty and \<^verbatim>\<open><\<close> follows it.
\<close>

fun regex_match :: "js_string \<Rightarrow> js_string option" where
  "regex_match [] = None"
| "regex_match (c # cs) =
     (if c = 0x3E \<and> takeWhile in_class cs \<noteq> [] \<and>
         (case dropWhile in_class cs of [] \<Rightarrow> False | d # _ \<Rightarrow> d = 0x3C)
      then Some (takeWhile in_class cs)
      else regex_match cs)"

text \<open>
  What the specification says of the strings that give a number, for comparison with
  \<open>regex_match\<close>: the string contains the pattern \<^verbatim>\<open>>\<close>, number, \<^verbatim>\<open><\<close>. A number is
  taken to be what the pattern of the code lets through, a run of digits and dots that
  is not empty; \<open>regex_match\<close> does not depend on this definition.
\<close>

definition contains_pattern :: "js_string \<Rightarrow> bool" where
  "contains_pattern s =
     (\<exists>pre m post. s = pre @ 0x3E # m @ 0x3C # post \<and> m \<noteq> [] \<and> (\<forall>c \<in> set m. in_class c))"

definition digits_value :: "js_string \<Rightarrow> nat" where
  "digits_value ds = foldl (\<lambda>a c. 10 * a + unat (c - 0x30)) 0 ds"

text \<open>
  The Number value for a rational that is not negative (the conversion that ECMAScript
  writes \<^verbatim>\<open>F(x)\<close>): the binary64 value nearest to it, the one with the even significand
  when two are equally near, and \<open>Infinity\<close> when that nearest value would be \<open>2^1024\<close>.
  The binary64 values from \<open>2^e\<close> to \<open>2^(e+1)\<close> are the multiples of \<open>2^(e-52)\<close>, and
  below \<open>2^-1022\<close>, where they are subnormal, the multiples of \<open>2^-1074\<close>. So a value in
  that range is rounded to the nearest multiple of the spacing, to the even multiple at a
  tie. \<open>is_binary64\<close> says which rationals are finite binary64 values that are not
  negative; it is what the conversion is measured against.
\<close>

definition is_binary64 :: "rat \<Rightarrow> bool" where
  "is_binary64 v =
     (\<exists>k x. v = of_int k * 2 powi x \<and> 0 \<le> k \<and> k < 2 ^ 53 \<and> - 1074 \<le> x \<and> x \<le> 971)"

text \<open>
  The binary exponent of a positive rational, the \<open>e\<close> with \<open>2^e \<le> q < 2^(e+1)\<close>: the
  bit lengths of numerator and denominator give it up to one. \<open>round_half_even\<close> is the
  nearest integer, the even one at a tie.
\<close>

definition floor_log2 :: "rat \<Rightarrow> int" where
  "floor_log2 q =
     (let (n, d) = quotient_of q; b = bitlen n - bitlen d
      in if 2 powi b \<le> q then b else b - 1)"

definition round_half_even :: "rat \<Rightarrow> int" where
  "round_half_even q =
     (let f = \<lfloor>q\<rfloor>; d = q - of_int f
      in if d < 1 / 2 \<or> (d = 1 / 2 \<and> even f) then f else f + 1)"

definition binary64 :: "rat \<Rightarrow> js_number" where
  "binary64 q =
     (if q = 0 then Num 0
      else (let x = max (floor_log2 q - 52) (- 1074);
                r = of_int (round_half_even (q / 2 powi x)) * 2 powi x
            in if 2 ^ 1024 \<le> r then Infinity else Num r))"

text \<open>
  \<^verbatim>\<open>parseFloat\<close> on the strings the capture group can hold, digits and dots only: it
  reads the longest prefix that is a decimal literal, \<^verbatim>\<open>digits\<close>,
  \<^verbatim>\<open>digits.digits\<close> (the second part may be empty) or \<^verbatim>\<open>.digits\<close>, and gives the
  Number value for the decimal it denotes, or \<open>NaN\<close> when no prefix is a literal. The
  value is that of the whole literal, however many digits it has, as V8 computes it
  (ECMAScript lets an engine stop at the 20th significant digit).
\<close>

definition parseFloat :: "js_string \<Rightarrow> js_number" where
  "parseFloat s =
     (let ip = takeWhile is_digit s; r = dropWhile is_digit s;
          fp = (case r of [] \<Rightarrow> [] | c # r' \<Rightarrow> if c = 0x2E then takeWhile is_digit r' else [])
      in if ip = [] \<and> fp = [] then NaN
         else binary64 (of_nat (digits_value ip) + of_nat (digits_value fp) / 10 ^ length fp))"

text \<open>
  \<^verbatim>\<open>
  function parseCoverage(html: string | null): number {
    if (!html) return 0
    const match = html.match(/>([\d.]+)</)
    return match ? parseFloat(match[1]) : 0
  }
  \<close>
  The argument is read from a JSON file and its type is not checked at run time, so it
  is any JSON value or \<^verbatim>\<open>undefined\<close>. A falsy one gives 0. A string that is not empty has
  the method \<^verbatim>\<open>match\<close>. Any other value has no function \<^verbatim>\<open>match\<close> to call (a number, a
  boolean and an array have no such property, and in an object read from JSON a property
  of that name is not a function), and the call raises a \<^verbatim>\<open>TypeError\<close>.
\<close>

definition parseCoverage :: "json option \<Rightarrow> js_error + js_number" where
  "parseCoverage html =
     (if \<not> truthy html then Inr (Num 0)
      else (case html of
              Some (JString s) \<Rightarrow>
                (case regex_match s of Some m \<Rightarrow> Inr (parseFloat m) | None \<Rightarrow> Inr (Num 0))
            | _ \<Rightarrow> Inl TypeError))"

section \<open>Properties\<close>

subsection \<open>chunk\<close>

lemma chunk_loop_exit: "\<not> i < int (length arr) \<Longrightarrow> chunk_loop arr sz i chunks = Some chunks"
  by (subst chunk_loop.simps) simp

lemma chunk_loop_iter:
  "i < int (length arr) \<Longrightarrow>
   chunk_loop arr sz i chunks = chunk_loop arr sz (i + sz) (chunks @ [slice arr i (i + sz)])"
  by (subst chunk_loop.simps) simp

lemma slice_nonneg:
  "0 \<le> i \<Longrightarrow> 0 \<le> n \<Longrightarrow> slice arr i (i + n) = take (nat n) (drop (nat i) arr)"
  by (auto simp: slice_def rel_index_def Let_def min_def nat_add_distrib)


lemma concat_groups: "0 < n \<Longrightarrow> concat (groups n xs) = xs"
proof (induction n xs rule: groups.induct)
  case (1 n xs)
  then show ?case by (subst groups.simps) auto
qed

lemma groups_butlast: "g \<in> set (butlast (groups n xs)) \<Longrightarrow> length g = n"
proof (induction n xs arbitrary: g rule: groups.induct)
  case (1 n xs)
  show ?case
  proof (cases "xs = [] \<or> n = 0")
    case True
    with "1.prems" show ?thesis by (simp add: groups.simps)
  next
    case False
    then have e: "groups n xs = take n xs # groups n (drop n xs)"
      by (subst groups.simps) simp
    show ?thesis
    proof (cases "groups n (drop n xs) = []")
      case True
      with e "1.prems" show ?thesis by simp
    next
      case ne: False
      then have "drop n xs \<noteq> []" by (auto simp: groups.simps)
      then have "length (take n xs) = n" by simp
      with e ne "1.prems" "1.IH"[OF False] show ?thesis by auto
    qed
  qed
qed

lemma groups_nonempty: "g \<in> set (groups n xs) \<Longrightarrow> g \<noteq> [] \<and> length g \<le> n"
proof (induction n xs arbitrary: g rule: groups.induct)
  case (1 n xs)
  show ?case
  proof (cases "xs = [] \<or> n = 0")
    case True
    with "1.prems" show ?thesis by (simp add: groups.simps)
  next
    case False
    then have e: "groups n xs = take n xs # groups n (drop n xs)"
      by (subst groups.simps) simp
    with "1.prems" "1.IH"[OF False] False show ?thesis by auto
  qed
qed

lemma chunk_loop_groups:
  "0 < sz \<Longrightarrow> 0 \<le> i \<Longrightarrow>
   chunk_loop arr sz i chunks = Some (chunks @ groups (nat sz) (drop (nat i) arr))"
proof (induction "length arr - nat i" arbitrary: i chunks rule: less_induct)
  case less
  show ?case
  proof (cases "i < int (length arr)")
    case False
    then have "drop (nat i) arr = []" by simp
    with False show ?thesis by (simp add: chunk_loop_exit groups.simps)
  next
    case True
    have m: "length arr - nat (i + sz) < length arr - nat i"
      using True less.prems by linarith
    have d: "drop (nat i) arr \<noteq> []" using True less.prems by simp
    have s: "slice arr i (i + sz) = take (nat sz) (drop (nat i) arr)"
      using less.prems by (simp add: slice_nonneg)
    have "chunk_loop arr sz i chunks
          = chunk_loop arr sz (i + sz) (chunks @ [slice arr i (i + sz)])"
      using True by (rule chunk_loop_iter)
    also have "\<dots> = Some ((chunks @ [slice arr i (i + sz)]) @ groups (nat sz) (drop (nat (i + sz)) arr))"
      using less.hyps[OF m] less.prems by simp
    also have "drop (nat (i + sz)) arr = drop (nat sz) (drop (nat i) arr)"
      using less.prems by (simp add: nat_add_distrib add.commute)
    finally have f: "chunk_loop arr sz i chunks =
        Some ((chunks @ [slice arr i (i + sz)]) @ groups (nat sz) (drop (nat sz) (drop (nat i) arr)))" .
    have g: "groups (nat sz) (drop (nat i) arr)
             = take (nat sz) (drop (nat i) arr) # groups (nat sz) (drop (nat sz) (drop (nat i) arr))"
      using d less.prems by (subst groups.simps) simp
    show ?thesis using f g s by simp
  qed
qed

lemma exit_imp_empty: "\<not> i < int (length arr) \<Longrightarrow> i \<le> 0 \<Longrightarrow> arr = []"
  by (cases arr) auto

lemma chunk_loop_stuck:
  assumes "sz \<le> 0" "i \<le> 0" "arr \<noteq> []"
  shows "chunk_loop arr sz i chunks = None"
proof (cases "chunk_loop arr sz i chunks")
  case None
  then show ?thesis .
next
  case (Some r)
  have "\<not> (sz \<le> 0 \<and> i \<le> 0 \<and> arr \<noteq> [])"
    by (rule chunk_loop.raw_induct
          [where P = "\<lambda>arr sz i chunks r. \<not> (sz \<le> 0 \<and> i \<le> 0 \<and> arr \<noteq> [])", OF _ Some])
       (auto split: if_splits dest: exit_imp_empty)
  with assms show ?thesis by simp
qed


text \<open>
  C2 (amended). The groups of \<open>chunk\<close>: the empty array gives no group, whatever the
  size; for every array and every size of at least 1, \<open>chunk\<close> returns groups whose
  concatenation is the array, every group but the last has exactly \<open>n\<close> elements, and
  no group is empty or longer than \<open>n\<close>. For a size of 0 and a non-empty array the
  claim as written fails: no groups are returned at all.
\<close>

theorem chunk_groups:
  "chunk [] n = Some [] \<and>
   (0 < n \<longrightarrow>
     (\<exists>gs. chunk items n = Some gs \<and> concat gs = items \<and>
        (\<forall>g \<in> set (butlast gs). int (length g) = n) \<and>
        (\<forall>g \<in> set gs. g \<noteq> [] \<and> int (length g) \<le> n)))"
proof (intro conjI impI)
  show "chunk [] n = Some []"
    by (simp add: chunk_def chunk_loop_exit)
next
  assume n: "0 < n"
  have c: "chunk items n = Some (groups (nat n) items)"
    using n by (simp add: chunk_def chunk_loop_groups)
  have "concat (groups (nat n) items) = items"
    using n by (simp add: concat_groups)
  moreover have "\<forall>g \<in> set (butlast (groups (nat n) items)). int (length g) = n"
    using n groups_butlast[of _ "nat n" items] by auto
  moreover have "\<forall>g \<in> set (groups (nat n) items). g \<noteq> [] \<and> int (length g) \<le> n"
    using n groups_nonempty[of _ "nat n" items] by fastforce
  ultimately show "\<exists>gs. chunk items n = Some gs \<and> concat gs = items \<and>
        (\<forall>g \<in> set (butlast gs). int (length g) = n) \<and>
        (\<forall>g \<in> set gs. g \<noteq> [] \<and> int (length g) \<le> n)"
    using c by blast
qed

theorem chunk_groups_witness:
  "(0::int) < 2 \<and> chunk [1, 2, 3, 4, 5 :: nat] 2 = Some [[1, 2], [3, 4], [5]] \<and>
   concat [[1, 2], [3, 4], [5 :: nat]] = [1, 2, 3, 4, 5] \<and>
   map length (butlast [[1, 2], [3, 4], [5 :: nat]]) = [2, 2]"
proof -
  have e: "chunk [1, 2, 3, 4, 5 :: nat] 2 = Some [[1, 2], [3, 4], [5]]"
    by code_simp
  show ?thesis
    using chunk_groups [of 2 "[1, 2, 3, 4, 5 :: nat]"] e by simp
qed

theorem chunk_size_zero_counterexample: "chunk [1 :: nat] 0 = None"
  by (simp add: chunk_def chunk_loop_stuck)

text \<open>
  C9 (amended). \<open>chunk\<close> has no effect other than its result, and it terminates with a
  result exactly when the array is empty or the size is at least 1. For a size below 1
  and a non-empty array the index never passes the length and the loop does not end.
\<close>

theorem chunk_returns_iff: "(\<exists>r. chunk arr sz = Some r) \<longleftrightarrow> (arr = [] \<or> 0 < sz)"
proof
  assume r: "\<exists>r. chunk arr sz = Some r"
  show "arr = [] \<or> 0 < sz"
  proof (rule ccontr)
    assume "\<not> (arr = [] \<or> 0 < sz)"
    then have "chunk arr sz = None"
      by (simp add: chunk_def chunk_loop_stuck)
    with r show False by simp
  qed
next
  assume "arr = [] \<or> 0 < sz"
  then show "\<exists>r. chunk arr sz = Some r"
    by (auto simp: chunk_def chunk_loop_exit chunk_loop_groups)
qed

theorem chunk_returns_iff_witness:
  "(\<exists>r. chunk [True, False, True] 2 = Some r) \<and> \<not> (\<exists>r. chunk [True, False, True] (- 2) = Some r)"
  using chunk_returns_iff [of "[True, False, True]" 2]
    chunk_returns_iff [of "[True, False, True]" "- 2"] by simp

theorem chunk_negative_size_counterexample: "chunk [True, False, True] (- 1) = None"
  by (simp add: chunk_def chunk_loop_stuck)

subsection \<open>sanitizeString\<close>

lemma trim_fixed:
  assumes "s = [] \<or> (\<not> is_space (hd s) \<and> \<not> is_space (last s))"
  shows "trim s = s"
proof (cases "s = []")
  case True
  then show ?thesis by (simp add: trim_def)
next
  case False
  with assms have h: "\<not> is_space (hd s)" and l: "\<not> is_space (last s)" by auto
  from False h have a: "dropWhile is_space s = s" by (cases s) auto
  from False l have "\<not> is_space (hd (rev s))" by (simp add: hd_rev)
  with False have "dropWhile is_space (rev s) = rev s" by (cases "rev s") auto
  with a show ?thesis by (simp add: trim_def)
qed

lemma trim_ends:
  assumes "trim s \<noteq> []"
  shows "\<not> is_space (hd (trim s)) \<and> \<not> is_space (last (trim s))"
proof -
  let ?a = "dropWhile is_space s"
  let ?b = "dropWhile is_space (rev ?a)"
  have t: "trim s = rev ?b" by (simp add: trim_def)
  with assms have b: "?b \<noteq> []" by simp
  have a: "?a \<noteq> []"
  proof
    assume e: "?a = []"
    have "?b = []" unfolding e by simp
    with b show False by simp
  qed
  have hb: "\<not> is_space (hd ?b)" using b by (rule hd_dropWhile)
  have ha: "\<not> is_space (hd ?a)" using a by (rule hd_dropWhile)
  obtain us where "rev ?a = us @ ?b"
    by (metis takeWhile_dropWhile_id)
  with b have "last ?b = last (rev ?a)" by (metis last_appendR)
  also have "\<dots> = hd ?a" using a by (simp add: last_rev)
  finally have lb: "\<not> is_space (last ?b)" using ha by simp
  show ?thesis using t hb lb b by (simp add: hd_rev last_rev)
qed

lemma set_trim: "set (trim s) \<subseteq> set s"
  by (auto simp: trim_def dest!: set_dropWhileD)

lemma sanitize_clean: "c \<in> set (sanitizeString str) \<Longrightarrow> \<not> is_control c"
  using set_trim by (fastforce simp: sanitizeString_def split: nullable.splits if_splits)

lemma sanitize_ends:
  "sanitizeString str \<noteq> [] \<Longrightarrow>
   \<not> is_space (hd (sanitizeString str)) \<and> \<not> is_space (last (sanitizeString str))"
  using trim_ends by (auto simp: sanitizeString_def split: nullable.splits if_splits)

text \<open>
  C10. \<open>sanitizeString\<close> is idempotent on strings, \<open>null\<close> and \<open>undefined\<close>: its
  output holds none of the stripped control characters and neither starts nor ends with
  white space, so sanitizing it again gives it back.
\<close>

theorem sanitizeString_idempotent:
  "sanitizeString (Val (sanitizeString str)) = sanitizeString str \<and>
   (\<forall>c \<in> set (sanitizeString str). \<not> is_control c) \<and>
   (sanitizeString str \<noteq> [] \<longrightarrow>
      \<not> is_space (hd (sanitizeString str)) \<and> \<not> is_space (last (sanitizeString str)))"
proof -
  let ?t = "sanitizeString str"
  have f: "filter (\<lambda>c. \<not> is_control c) ?t = ?t"
    using sanitize_clean [of _ str] by (simp add: filter_id_conv)
  have "trim ?t = ?t"
    using sanitize_ends [of str] by (intro trim_fixed) blast
  with f have "sanitizeString (Val ?t) = ?t"
    by (simp add: sanitizeString_def)
  then show ?thesis
    using sanitize_clean [of _ str] sanitize_ends [of str] by blast
qed

theorem sanitizeString_idempotent_witness:
  "sanitizeString (Val [0x20, 0x61, 0x00, 0x09, 0x62, 0x1F, 0x0A]) = [0x61, 0x09, 0x62] \<and>
   sanitizeString (Val (sanitizeString (Val [0x20, 0x61, 0x00, 0x09, 0x62, 0x1F, 0x0A])))
     = [0x61, 0x09, 0x62] \<and>
   sanitizeString (Val (sanitizeString Null)) = sanitizeString Null \<and>
   sanitizeString (Val (sanitizeString Undefined)) = sanitizeString Undefined"
proof -
  have e: "sanitizeString (Val [0x20, 0x61, 0x00, 0x09, 0x62, 0x1F, 0x0A]) = [0x61, 0x09, 0x62]"
    by (simp add: sanitizeString_def trim_def is_control_def is_space_def)
  show ?thesis
    using e sanitizeString_idempotent [of "Val [0x20, 0x61, 0x00, 0x09, 0x62, 0x1F, 0x0A]"]
      sanitizeString_idempotent [of Null] sanitizeString_idempotent [of Undefined]
    by simp
qed

subsection \<open>parseCoverage\<close>

lemma not_class_gt: "\<not> in_class 0x3E" and not_class_lt: "\<not> in_class 0x3C"
  by (simp_all add: in_class_def is_digit_def)

lemma takeWhile_run:
  "\<forall>c \<in> set m. P c \<Longrightarrow> \<not> P d \<Longrightarrow> takeWhile P (m @ d # post) = m"
  by (induction m) auto

lemma dropWhile_run:
  "\<forall>c \<in> set m. P c \<Longrightarrow> \<not> P d \<Longrightarrow> dropWhile P (m @ d # post) = d # post"
  by (induction m) auto

lemma regex_match_here:
  "m \<noteq> [] \<Longrightarrow> \<forall>c \<in> set m. in_class c \<Longrightarrow> regex_match (0x3E # m @ 0x3C # post) = Some m"
  by (simp add: takeWhile_run dropWhile_run not_class_lt)

lemma takeWhile_ext:
  "\<not> P d \<Longrightarrow> takeWhile P (cs @ d # rest) = takeWhile P cs"
  by (induction cs) auto

lemma dropWhile_ext_hd:
  "\<not> P d \<Longrightarrow>
   (case dropWhile P (cs @ d # rest) of [] \<Rightarrow> False | e # _ \<Rightarrow> e = x) =
   (case dropWhile P cs of [] \<Rightarrow> d = x | e # _ \<Rightarrow> e = x)"
  by (induction cs) auto

lemma regex_match_skip:
  "regex_match pre = None \<Longrightarrow> regex_match (pre @ 0x3E # rest) = regex_match (0x3E # rest)"
proof (induction pre)
  case Nil
  then show ?case by simp
next
  case (Cons c cs)
  from Cons.prems have n: "regex_match cs = None"
    by (simp split: if_splits)
  from Cons.prems have f: "\<not> (c = 0x3E \<and> takeWhile in_class cs \<noteq> [] \<and>
         (case dropWhile in_class cs of [] \<Rightarrow> False | d # _ \<Rightarrow> d = 0x3C))"
    by (simp split: if_splits)
  have "\<not> (c = 0x3E \<and> takeWhile in_class (cs @ 0x3E # rest) \<noteq> [] \<and>
         (case dropWhile in_class (cs @ 0x3E # rest) of [] \<Rightarrow> False | d # _ \<Rightarrow> d = 0x3C))"
  proof
    assume a: "c = 0x3E \<and> takeWhile in_class (cs @ 0x3E # rest) \<noteq> [] \<and>
         (case dropWhile in_class (cs @ 0x3E # rest) of [] \<Rightarrow> False | d # _ \<Rightarrow> d = 0x3C)"
    then have t: "takeWhile in_class cs \<noteq> []"
      by (simp add: takeWhile_ext not_class_gt)
    from a have "case dropWhile in_class cs of [] \<Rightarrow> (0x3E :: 16 word) = 0x3C | e # _ \<Rightarrow> e = 0x3C"
      by (simp add: dropWhile_ext_hd not_class_gt)
    then have "case dropWhile in_class cs of [] \<Rightarrow> False | e # _ \<Rightarrow> e = 0x3C"
      by (cases "dropWhile in_class cs") simp_all
    with a t f show False by blast
  qed
  then have "regex_match ((c # cs) @ 0x3E # rest) = regex_match (cs @ 0x3E # rest)"
    unfolding append_Cons by (subst regex_match.simps) (simp only: if_False)
  with Cons.IH [OF n] show ?case by simp
qed

lemma regex_match_first:
  "regex_match pre = None \<Longrightarrow> m \<noteq> [] \<Longrightarrow> \<forall>c \<in> set m. in_class c \<Longrightarrow>
   regex_match (pre @ 0x3E # m @ 0x3C # post) = Some m"
  by (simp add: regex_match_skip regex_match_here del: regex_match.simps)

text \<open>
  The pattern of the code against the words of the specification: \<^verbatim>\<open>match\<close> finds
  something exactly in the strings that contain \<^verbatim>\<open>>\<close>, a run of digits and dots that is
  not empty, and \<^verbatim>\<open><\<close>.
\<close>

lemma regex_match_decompose:
  "regex_match s = Some m \<Longrightarrow>
   \<exists>pre post. s = pre @ 0x3E # m @ 0x3C # post \<and> m \<noteq> [] \<and> (\<forall>c \<in> set m. in_class c)"
proof (induction s)
  case Nil
  then show ?case by simp
next
  case (Cons c cs)
  show ?case
  proof (cases "c = 0x3E \<and> takeWhile in_class cs \<noteq> [] \<and>
         (case dropWhile in_class cs of [] \<Rightarrow> False | d # _ \<Rightarrow> d = 0x3C)")
    case True
    with Cons.prems have m: "m = takeWhile in_class cs" by simp
    from True obtain post where d: "dropWhile in_class cs = 0x3C # post"
      by (cases "dropWhile in_class cs") auto
    have "takeWhile in_class cs @ dropWhile in_class cs = cs" by simp
    then have "cs = m @ 0x3C # post"
      unfolding d m [symmetric] by (rule sym)
    with True have "c # cs = [] @ 0x3E # m @ 0x3C # post" by simp
    moreover have "\<forall>c \<in> set m. in_class c"
      unfolding m by (auto dest: set_takeWhileD)
    moreover from True have "m \<noteq> []" by (simp add: m)
    ultimately show ?thesis by blast
  next
    case False
    with Cons.prems have "regex_match cs = Some m" by (simp split: if_splits)
    from Cons.IH [OF this] obtain pre post where
      p: "cs = pre @ 0x3E # m @ 0x3C # post" "m \<noteq> []" "\<forall>c \<in> set m. in_class c"
      by blast
    from p(1) have "c # cs = (c # pre) @ 0x3E # m @ 0x3C # post" by simp
    with p(2,3) show ?thesis by blast
  qed
qed

lemma regex_match_complete:
  assumes "m \<noteq> []" "\<forall>c \<in> set m. in_class c"
  shows "regex_match (pre @ 0x3E # m @ 0x3C # post) \<noteq> None"
proof (induction pre)
  case Nil
  from regex_match_here [OF assms] show ?case by simp
next
  case (Cons c cs)
  then show ?case
    unfolding append_Cons by (subst regex_match.simps) (simp only: split: if_split, simp)
qed

lemma contains_pattern_iff: "contains_pattern s \<longleftrightarrow> regex_match s \<noteq> None"
proof
  assume "contains_pattern s"
  then show "regex_match s \<noteq> None"
    unfolding contains_pattern_def using regex_match_complete by blast
next
  assume "regex_match s \<noteq> None"
  then obtain m where "regex_match s = Some m" by blast
  from regex_match_decompose [OF this] show "contains_pattern s"
    unfolding contains_pattern_def by blast
qed

text \<open>The conversion to binary64: the binary exponent, and the rounding to an integer.\<close>


lemma bitlen_powi:
  assumes "0 < n"
  shows "(2::rat) powi (bitlen n - 1) \<le> of_int n" "of_int n < (2::rat) powi bitlen n"
proof -
  from assms have b: "1 \<le> bitlen n"
    using bitlen_eq_zero_iff [of n] bitlen_nonneg [of n] by linarith
  from bitlen_bounds [OF assms] have "(2::int) ^ nat (bitlen n - 1) \<le> n" "n < 2 ^ nat (bitlen n)"
    by simp_all
  then have "of_int ((2::int) ^ nat (bitlen n - 1)) \<le> (of_int n :: rat)"
    "(of_int n :: rat) < of_int (2 ^ nat (bitlen n))"
    by (simp_all only: of_int_le_iff of_int_less_iff)
  then show "(2::rat) powi (bitlen n - 1) \<le> of_int n" "of_int n < (2::rat) powi bitlen n"
    using b by (simp_all add: power_int_nonneg_exp)
qed

lemma floor_log2_bounds:
  assumes "0 < q"
  shows "2 powi floor_log2 q \<le> q" "q < 2 powi (floor_log2 q + 1)"
proof -
  obtain n d where nd: "quotient_of q = (n, d)" by (cases "quotient_of q")
  then have d: "0 < d" and q: "q = of_int n / of_int d"
    by (rule quotient_of_denom_pos, rule quotient_of_div)
  from assms d q have n: "0 < n" by (simp add: zero_less_divide_iff)
  let ?b = "bitlen n - bitlen d"
  have "of_int n / of_int d < (2::rat) powi bitlen n / 2 powi (bitlen d - 1)"
    using bitlen_powi [OF n] bitlen_powi [OF d] n d
    by (intro frac_less) simp_all
  then have u: "q < 2 powi (?b + 1)"
    by (simp add: q power_int_diff power_int_add)
  have "(2::rat) powi (bitlen n - 1) / 2 powi bitlen d \<le> of_int n / of_int d"
    using bitlen_powi [OF n] bitlen_powi [OF d] n d
    by (intro frac_le) simp_all
  then have l: "2 powi (?b - 1) \<le> q"
    by (simp add: q power_int_diff power_int_add)
  have f: "floor_log2 q = (if 2 powi ?b \<le> q then ?b else ?b - 1)"
    by (simp add: floor_log2_def nd Let_def)
  show "2 powi floor_log2 q \<le> q" "q < 2 powi (floor_log2 q + 1)"
    using u l by (simp_all add: f)
qed

lemma floor_log2_unique:
  assumes "2 powi e \<le> q" "q < 2 powi (e + 1)"
  shows "floor_log2 q = e"
proof -
  have "(0::rat) < 2 powi e" by simp
  from this assms(1) have q: "0 < q" by (rule less_le_trans)
  note b = floor_log2_bounds [OF q]
  have 1: "e < floor_log2 q + 1"
  proof (rule ccontr)
    assume "\<not> e < floor_log2 q + 1"
    then have "(2::rat) powi (floor_log2 q + 1) \<le> 2 powi e"
      by (intro power_int_increasing) simp_all
    with assms(1) b(2) show False by simp
  qed
  have 2: "floor_log2 q < e + 1"
  proof (rule ccontr)
    assume "\<not> floor_log2 q < e + 1"
    then have "(2::rat) powi (e + 1) \<le> 2 powi floor_log2 q"
      by (intro power_int_increasing) simp_all
    with assms(2) b(1) show False by simp
  qed
  from 1 2 show ?thesis by simp
qed

lemma round_half_even_near:
  "\<bar>of_int (round_half_even q) - q\<bar> \<le> 1 / 2"
  unfolding round_half_even_def Let_def by (auto simp: abs_if not_less) linarith+

lemma round_half_even_nearest:
  "\<bar>of_int (round_half_even q) - q\<bar> \<le> \<bar>of_int j - q\<bar>"
proof (cases "j = round_half_even q")
  case True
  then show ?thesis by simp
next
  case False
  then have "1 \<le> \<bar>j - round_half_even q\<bar>" by simp
  then have "(1::rat) \<le> \<bar>of_int j - of_int (round_half_even q)\<bar>"
    by (metis of_int_1 of_int_abs of_int_diff of_int_le_iff)
  with round_half_even_near [of q] show ?thesis by linarith
qed

lemma round_half_even_int [simp]: "round_half_even (of_int k) = k"
  by (simp add: round_half_even_def)

lemma round_half_even_floor:
  "\<lfloor>q\<rfloor> \<le> round_half_even q" "round_half_even q \<le> \<lfloor>q\<rfloor> + 1"
  by (simp_all add: round_half_even_def Let_def)

lemma round_half_even_ge:
  assumes "of_int k \<le> q"
  shows "k \<le> round_half_even q"
proof -
  from assms have "k \<le> \<lfloor>q\<rfloor>" by (simp add: le_floor_iff)
  with round_half_even_floor(1) [of q] show ?thesis by simp
qed

lemma round_half_even_le:
  assumes "q \<le> of_int k"
  shows "round_half_even q \<le> k"
proof (cases "q = of_int \<lfloor>q\<rfloor>")
  case True
  then have "round_half_even q = \<lfloor>q\<rfloor>" by (metis round_half_even_int)
  with assms show ?thesis by (simp add: floor_le_iff)
next
  case False
  then have "of_int \<lfloor>q\<rfloor> < q" using of_int_floor_le [of q] by linarith
  with assms have "(of_int \<lfloor>q\<rfloor> :: rat) < of_int k" by simp
  then have "\<lfloor>q\<rfloor> < k" by (simp only: of_int_less_iff)
  with round_half_even_floor(2) [of q] show ?thesis by simp
qed

lemma round_half_even_above:
  assumes "of_int f + 1 / 2 \<le> q" "odd f"
  shows "f + 1 \<le> round_half_even q"
proof (cases "f + 1 \<le> \<lfloor>q\<rfloor>")
  case True
  with round_half_even_floor(1) [of q] show ?thesis by simp
next
  case False
  moreover from assms(1) have "of_int f \<le> q" by simp
  then have "f \<le> \<lfloor>q\<rfloor>" by (simp add: le_floor_iff)
  ultimately have f: "\<lfloor>q\<rfloor> = f" by simp
  with assms show ?thesis
    by (auto simp: round_half_even_def Let_def)
qed

lemma round_half_even_below:
  assumes "q < of_int f + 1 / 2"
  shows "round_half_even q \<le> f"
proof (cases "\<lfloor>q\<rfloor> < f")
  case True
  with round_half_even_floor(2) [of q] show ?thesis by simp
next
  case False
  moreover from assms have "q < of_int (f + 1)" by simp
  then have "\<lfloor>q\<rfloor> < f + 1" by (simp only: floor_less_iff)
  ultimately have f: "\<lfloor>q\<rfloor> = f" by simp
  with assms show ?thesis
    by (auto simp: round_half_even_def Let_def)
qed

text \<open>
  The rounding inside \<open>binary64\<close>: for a positive \<open>q\<close>, the spacing is \<open>2^x\<close>, and the
  result before the check for overflow is the multiple \<open>k\<close> of it, at most \<open>2^53\<close>, that no
  other multiple is nearer to \<open>q\<close> than.
\<close>

lemma binary64_Infinity:
  "q \<noteq> 0 \<Longrightarrow> x = max (floor_log2 q - 52) (- 1074) \<Longrightarrow>
   k = round_half_even (q / 2 powi x) \<Longrightarrow> (2::rat) ^ 1024 \<le> of_int k * 2 powi x \<Longrightarrow>
   binary64 q = Infinity"
  unfolding binary64_def Let_def by (simp only: if_True if_False)

lemma binary64_Num:
  "q \<noteq> 0 \<Longrightarrow> x = max (floor_log2 q - 52) (- 1074) \<Longrightarrow>
   k = round_half_even (q / 2 powi x) \<Longrightarrow> of_int k * 2 powi x < (2::rat) ^ 1024 \<Longrightarrow>
   binary64 q = Num (of_int k * 2 powi x)"
  unfolding binary64_def Let_def by (simp only: if_True if_False not_le [symmetric])

lemma grid_significand:
  assumes "0 < q" "x = max (floor_log2 q - 52) (- 1074)" "k = round_half_even (q / 2 powi x)"
  shows "0 \<le> k" "k \<le> 2 ^ 53"
proof -
  have g: "(0::rat) < 2 powi x" by simp
  from assms(1) g have "of_int 0 \<le> q / 2 powi x" by simp
  then show "0 \<le> k" unfolding assms(3) by (rule round_half_even_ge)
  have "q < 2 powi (floor_log2 q + 1)" using assms(1) by (rule floor_log2_bounds)
  also have "\<dots> \<le> 2 powi (x + 53)"
    using assms(2) by (intro power_int_increasing) simp_all
  also have "\<dots> = 2 ^ 53 * 2 powi x" by (simp add: power_int_add)
  finally have "q / 2 powi x \<le> of_int (2 ^ 53)"
    using g by (simp add: pos_divide_le_eq)
  then show "k \<le> 2 ^ 53" unfolding assms(3) by (rule round_half_even_le)
qed

lemma grid_nearest:
  assumes "k = round_half_even (q / 2 powi x)"
  shows "\<bar>of_int k * 2 powi x - q\<bar> \<le> \<bar>of_int j * 2 powi x - q\<bar>"
proof -
  have g: "(0::rat) < 2 powi x" by simp
  have e: "\<bar>of_int i * 2 powi x - q\<bar> = \<bar>of_int i - q / 2 powi x\<bar> * 2 powi x" for i
  proof -
    have "of_int i * 2 powi x - q = (of_int i - q / 2 powi x) * 2 powi x"
      using g by (simp add: field_simps)
    then show ?thesis using g by (simp add: abs_mult)
  qed
  from round_half_even_nearest [of "q / 2 powi x" j]
  show ?thesis unfolding e assms using g by (simp add: mult_right_mono)
qed

lemma floor_log2_ge:
  assumes "2 powi e \<le> q"
  shows "e \<le> floor_log2 q"
proof (rule ccontr)
  assume "\<not> e \<le> floor_log2 q"
  then have "(2::rat) powi (floor_log2 q + 1) \<le> 2 powi e"
    by (intro power_int_increasing) simp_all
  moreover have "(0::rat) < 2 powi e" by simp
  from this assms have "0 < q" by (rule less_le_trans)
  then have "q < 2 powi (floor_log2 q + 1)" by (rule floor_log2_bounds)
  ultimately show False using assms by simp
qed

lemma floor_log2_less:
  assumes "0 < q" "q < 2 powi e"
  shows "floor_log2 q < e"
proof (rule ccontr)
  assume "\<not> floor_log2 q < e"
  then have "(2::rat) powi e \<le> 2 powi floor_log2 q"
    by (intro power_int_increasing) simp_all
  moreover have "2 powi floor_log2 q \<le> q" using assms(1) by (rule floor_log2_bounds)
  ultimately show False using assms(2) by simp
qed

lemma scale_le:
  "i \<le> k \<Longrightarrow> (of_int i :: rat) * 2 powi x \<le> of_int k * 2 powi x"
  by (simp add: mult_right_mono)

lemma binary64_overflow:
  assumes "2 ^ 1024 - 2 ^ 970 \<le> q"
  shows "binary64 q = Infinity"
proof -
  define x where "x = max (floor_log2 q - 52) (- 1074)"
  define k where "k = round_half_even (q / 2 powi x)"
  have g: "(0::rat) < 2 powi x" by simp
  have "(2::rat) powi 1023 \<le> 2 ^ 1024 - 2 ^ 970" by simp
  from this assms have q1: "2 powi 1023 \<le> q" by (rule order_trans)
  then have e: "1023 \<le> floor_log2 q" by (rule floor_log2_ge)
  have "(0::rat) < 2 powi 1023" by simp
  from this q1 have q: "0 < q" by (rule less_le_trans)
  from e have x: "x = floor_log2 q - 52" by (simp add: x_def)
  have "(2::rat) powi 1024 \<le> of_int k * 2 powi x"
  proof (cases "1024 \<le> floor_log2 q")
    case True
    have "2 powi floor_log2 q \<le> q" using q by (rule floor_log2_bounds)
    then have "(2::rat) powi 52 * 2 powi x \<le> q" by (simp add: x power_int_diff)
    then have "(2::rat) powi 52 \<le> q / 2 powi x"
      using g by (simp only: pos_le_divide_eq)
    then have "of_int (2 ^ 52) \<le> q / 2 powi x" by simp
    then have "2 ^ 52 \<le> k" unfolding k_def by (rule round_half_even_ge)
    then have "(of_int (2 ^ 52) :: rat) * 2 powi x \<le> of_int k * 2 powi x" by (rule scale_le)
    moreover have "(of_int (2 ^ 52) :: rat) * 2 powi x = 2 powi (x + 52)"
      by (simp add: power_int_add)
    moreover have "(2::rat) powi 1024 \<le> 2 powi (x + 52)"
      using True by (intro power_int_increasing) (simp_all add: x)
    ultimately show ?thesis by (simp only:)
  next
    case False
    with e have x': "x = 971" by (simp add: x)
    from assms have "of_int (2 ^ 53 - 1) + 1 / 2 \<le> q / 2 powi x"
      unfolding x' by (simp add: pos_le_divide_eq)
    moreover have "odd ((2::int) ^ 53 - 1)" by simp
    ultimately have "2 ^ 53 - 1 + 1 \<le> k" unfolding k_def by (rule round_half_even_above)
    then have "2 ^ 53 \<le> k" by simp
    then have "(of_int (2 ^ 53) :: rat) * 2 powi x \<le> of_int k * 2 powi x" by (rule scale_le)
    moreover have "(of_int (2 ^ 53) :: rat) * 2 powi x = 2 powi 1024"
      unfolding x' by simp
    ultimately show ?thesis by (simp only:)
  qed
  moreover have "(2::rat) powi 1024 = 2 ^ 1024" by (rule power_int_numeral)
  ultimately have "(2::rat) ^ 1024 \<le> of_int k * 2 powi x" by (simp only:)
  moreover from q have "q \<noteq> 0" by simp
  ultimately show ?thesis
    by (intro binary64_Infinity [OF _ x_def k_def])
qed

lemma scale_less:
  "i < k \<Longrightarrow> (of_int i :: rat) * 2 powi x < of_int k * 2 powi x"
  by simp

lemma is_binary64I:
  "0 \<le> k \<Longrightarrow> k < 2 ^ 53 \<Longrightarrow> - 1074 \<le> x \<Longrightarrow> x \<le> 971 \<Longrightarrow> is_binary64 (of_int k * 2 powi x)"
  unfolding is_binary64_def by blast

lemma binary64_finite:
  assumes "0 \<le> q" "q < 2 ^ 1024 - 2 ^ 970"
  shows "\<exists>r. binary64 q = Num r \<and> is_binary64 r \<and> (\<forall>v. is_binary64 v \<longrightarrow> \<bar>r - q\<bar> \<le> \<bar>v - q\<bar>)"
proof (cases "q = 0")
  case True
  have "is_binary64 (of_int 0 * 2 powi 0)"
    by (intro is_binary64I) simp_all
  then have "is_binary64 0" by simp
  then show ?thesis by (simp add: True binary64_def)
next
  case False
  with assms have q: "0 < q" by simp
  define x where "x = max (floor_log2 q - 52) (- 1074)"
  define k where "k = round_half_even (q / 2 powi x)"
  define r :: rat where "r = of_int k * 2 powi x"
  have g: "(0::rat) < 2 powi x" by simp
  note b = floor_log2_bounds [OF q]
  note s = grid_significand [OF q x_def k_def]
  have "(2::rat) ^ 1024 - 2 ^ 970 \<le> 2 powi 1024" by simp
  with assms(2) have "q < 2 powi 1024" by (rule less_le_trans)
  with q have "floor_log2 q < 1024" by (rule floor_log2_less)
  then have e: "floor_log2 q \<le> 1023" by simp
  then have x: "- 1074 \<le> x" "x \<le> 971" by (simp_all add: x_def)
  have lt: "r < 2 powi 1024"
  proof (cases "floor_log2 q = 1023")
    case True
    then have x': "x = 971" by (simp add: x_def)
    from assms(2) have "q / 2 powi x < of_int (2 ^ 53 - 1) + 1 / 2"
      unfolding x' by (simp add: pos_divide_less_eq)
    then have "k \<le> 2 ^ 53 - 1" unfolding k_def by (rule round_half_even_below)
    then have "(of_int k :: rat) * 2 powi x \<le> of_int (2 ^ 53 - 1) * 2 powi x" by (rule scale_le)
    also have "(of_int (2 ^ 53 - 1) :: rat) * 2 powi x < 2 powi 1024"
      unfolding x' by simp
    finally show ?thesis by (simp only: r_def)
  next
    case False
    with e have "x \<le> 970" by (simp add: x_def)
    then have "(2::rat) powi x \<le> 2 powi 970" by (intro power_int_increasing) simp_all
    moreover from s(2) have "(of_int k :: rat) \<le> of_int (2 ^ 53)" by (simp only: of_int_le_iff)
    ultimately have "(of_int k :: rat) * 2 powi x \<le> of_int (2 ^ 53) * 2 powi 970"
      using s(1) by (intro mult_mono) simp_all
    also have "(of_int (2 ^ 53) :: rat) * 2 powi 970 < 2 powi 1024" by simp
    finally show ?thesis by (simp only: r_def)
  qed
  have "(2::rat) powi 1024 = 2 ^ 1024" by (rule power_int_numeral)
  with lt have "of_int k * 2 powi x < (2::rat) ^ 1024" by (simp only: r_def)
  with False have n: "binary64 q = Num r"
    unfolding r_def by (intro binary64_Num [OF _ x_def k_def])
  have rep: "is_binary64 r"
  proof (cases "k = 2 ^ 53")
    case True
    have r: "r = of_int (2 ^ 52) * 2 powi (x + 1)"
      unfolding r_def True by (simp add: power_int_add)
    have "r = 2 powi (x + 53)"
      unfolding r_def True by (simp add: power_int_add)
    with lt have "(2::rat) powi (x + 53) < 2 powi 1024" by simp
    then have "x + 53 < 1024"
    proof (rule contrapos_pp)
      assume "\<not> x + 53 < 1024"
      then have "(2::rat) powi 1024 \<le> 2 powi (x + 53)"
        by (intro power_int_increasing) simp_all
      then show "\<not> (2::rat) powi (x + 53) < 2 powi 1024" by (simp only: not_less)
    qed
    with x(1) show ?thesis
      unfolding r by (intro is_binary64I) simp_all
  next
    case False
    with s have "0 \<le> k" "k < 2 ^ 53" by simp_all
    with x show ?thesis
      unfolding r_def by (intro is_binary64I) simp_all
  qed
  have near: "\<bar>r - q\<bar> \<le> \<bar>v - q\<bar>" if "is_binary64 v" for v
  proof -
    from that obtain k' x' where v: "v = of_int k' * 2 powi x'" "0 \<le> k'" "k' < 2 ^ 53"
      "- 1074 \<le> x'" "x' \<le> 971"
      unfolding is_binary64_def by blast
    show ?thesis
    proof (cases "x \<le> x'")
      case True
      then have "(2::rat) powi x' = 2 ^ nat (x' - x) * 2 powi x"
        using power_int_add [of "2::rat" "x' - x" x] by (simp add: power_int_nonneg_exp)
      then have "v = of_int (k' * 2 ^ nat (x' - x)) * 2 powi x"
        by (simp add: v(1))
      then show ?thesis
        unfolding r_def using grid_nearest [OF k_def, of "k' * 2 ^ nat (x' - x)" ] by simp
    next
      case False
      with v(4) have x2: "x = floor_log2 q - 52" by (simp add: x_def)
      from False have "(2::rat) powi x' \<le> 2 powi (x - 1)"
        by (intro power_int_increasing) simp_all
      moreover from v(3) have "(of_int k' :: rat) < of_int (2 ^ 53)" by (simp only: of_int_less_iff)
      ultimately have "(of_int k' :: rat) * 2 powi x' < of_int (2 ^ 53) * 2 powi (x - 1)"
        using v(2) by (intro mult_less_le_imp_less) simp_all
      also have "(of_int (2 ^ 53) :: rat) * 2 powi (x - 1) = 2 powi (x + 52)"
        by (simp add: power_int_add power_int_diff)
      finally have 1: "v < 2 powi (x + 52)" by (simp only: v(1))
      have 2: "2 powi (x + 52) \<le> q" using b(1) by (simp add: x2)
      have "\<bar>r - q\<bar> \<le> \<bar>(of_int (2 ^ 52) :: rat) * 2 powi x - q\<bar>"
        unfolding r_def by (rule grid_nearest [OF k_def])
      also have "(of_int (2 ^ 52) :: rat) * 2 powi x = (2::rat) powi (x + 52)"
        by (simp add: power_int_add)
      finally show ?thesis using 1 2 by linarith
    qed
  qed
  from n rep near show ?thesis by blast
qed

lemma binary64_exact:
  assumes "is_binary64 v"
  shows "binary64 v = Num v"
proof -
  from assms obtain k x where v: "v = of_int k * 2 powi x" "0 \<le> k" "k < 2 ^ 53" "x \<le> 971"
    unfolding is_binary64_def by blast
  from v(2) have 0: "0 \<le> v" by (simp add: v(1))
  from v(4) have "(2::rat) powi x \<le> 2 powi 971" by (intro power_int_increasing) simp_all
  moreover from v(3) have "k \<le> 2 ^ 53 - 1" by simp
  then have "(of_int k :: rat) \<le> of_int (2 ^ 53 - 1)" by (simp only: of_int_le_iff)
  ultimately have "(of_int k :: rat) * 2 powi x \<le> of_int (2 ^ 53 - 1) * 2 powi 971"
    using v(2) by (intro mult_mono) simp_all
  also have "(of_int (2 ^ 53 - 1) :: rat) * 2 powi 971 < 2 ^ 1024 - 2 ^ 970" by simp
  finally have 1: "v < 2 ^ 1024 - 2 ^ 970" by (simp only: v(1))
  from binary64_finite [OF 0 1] obtain r where
    r: "binary64 v = Num r" "\<forall>w. is_binary64 w \<longrightarrow> \<bar>r - v\<bar> \<le> \<bar>w - v\<bar>"
    by blast
  from r(2) assms have "\<bar>r - v\<bar> \<le> \<bar>v - v\<bar>" by blast
  then have "r = v" by simp
  with r(1) show ?thesis by simp
qed

lemma binary64_not_NaN: "binary64 q \<noteq> NaN"
  by (simp add: binary64_def Let_def)

lemma binary64_Infinity_iff:
  assumes "0 \<le> q"
  shows "binary64 q = Infinity \<longleftrightarrow> 2 ^ 1024 - 2 ^ 970 \<le> q"
proof
  assume i: "binary64 q = Infinity"
  show "2 ^ 1024 - 2 ^ 970 \<le> q"
  proof (rule ccontr)
    assume "\<not> 2 ^ 1024 - 2 ^ 970 \<le> q"
    then have "q < 2 ^ 1024 - 2 ^ 970" by (simp only: not_le)
    from binary64_finite [OF assms this] i show False by auto
  qed
next
  assume "2 ^ 1024 - 2 ^ 970 \<le> q"
  then show "binary64 q = Infinity" by (rule binary64_overflow)
qed

text \<open>
  How \<open>binary64\<close> is worked out at a given value, once its binary exponent is known: the
  multiple nearest to it when there is one, and the even multiple when it is half way
  between two.
\<close>

lemma round_half_even_eqI:
  assumes "\<bar>q - of_int k\<bar> < 1 / 2"
  shows "round_half_even q = k"
proof -
  from round_half_even_near [of q] assms
  have "\<bar>(of_int (round_half_even q) :: rat) - of_int k\<bar> < 1" by linarith
  then have "\<bar>(of_int (round_half_even q - k) :: rat)\<bar> < of_int 1" by simp
  then have "\<bar>round_half_even q - k\<bar> < 1"
    by (simp only: of_int_abs [symmetric] of_int_less_iff)
  then show ?thesis by simp
qed

lemma round_half_even_tie:
  assumes "q = of_int k + 1 / 2"
  shows "round_half_even q = (if even k then k else k + 1)"
proof -
  have "\<lfloor>q\<rfloor> = k" unfolding assms by (rule floor_unique) simp_all
  then show ?thesis by (simp add: round_half_even_def assms)
qed

lemma binary64_at:
  assumes "2 powi e \<le> q" "q < 2 powi (e + 1)" "x = max (e - 52) (- 1074)"
    "round_half_even (q / 2 powi x) = k" "of_int k * 2 powi x = r" "r < 2 ^ 1024"
  shows "binary64 q = Num r"
proof -
  have "(0::rat) < 2 powi e" by simp
  from this assms(1) have q: "q \<noteq> 0" by linarith
  from assms(1,2) have e: "floor_log2 q = e" by (rule floor_log2_unique)
  have "binary64 q = Num (of_int k * 2 powi x)"
    using q
  proof (rule binary64_Num)
    show "x = max (floor_log2 q - 52) (- 1074)" by (simp only: e assms(3))
    show "k = round_half_even (q / 2 powi x)" by (simp only: assms(4))
    show "of_int k * 2 powi x < (2::rat) ^ 1024" using assms(5,6) by (simp only:)
  qed
  then show ?thesis by (simp only: assms(5))
qed

lemma binary64_near:
  assumes "2 powi e \<le> q" "q < 2 powi (e + 1)" "x = max (e - 52) (- 1074)"
    "\<bar>q / 2 powi x - of_int k\<bar> < 1 / 2" "of_int k * 2 powi x = r" "r < 2 ^ 1024"
  shows "binary64 q = Num r"
  using assms(1-3) round_half_even_eqI [OF assms(4)] assms(5,6) by (rule binary64_at)

lemma binary64_tie:
  assumes "2 powi e \<le> q" "q < 2 powi (e + 1)" "x = max (e - 52) (- 1074)"
    "q / 2 powi x = of_int k + 1 / 2" "of_int (if even k then k else k + 1) * 2 powi x = r"
    "r < 2 ^ 1024"
  shows "binary64 q = Num r"
  using assms(1-3) round_half_even_tie [OF assms(4)] assms(5,6) by (rule binary64_at)

lemma binary64_examples:
  "binary64 (147 / 2) = Num (147 / 2)"
  "binary64 9007199254740993 = Num 9007199254740992"
  "binary64 9007199254740995 = Num 9007199254740996"
  "binary64 (1 / 10) = Num (3602879701896397 / 36028797018963968)"
  "binary64 (1 / 2 ^ 1075) = Num 0"
  "binary64 (3 / 2 ^ 1075) = Num (1 / 2 ^ 1073)"
  "binary64 (2 ^ 1024 - 2 ^ 970 - 1) = Num (2 ^ 1024 - 2 ^ 971)"
  "binary64 (2 ^ 1024 - 2 ^ 970) = Infinity"
proof -
  show "binary64 (147 / 2) = Num (147 / 2)"
    by (rule binary64_near [where e = 6 and x = "- 46" and k = "147 * 2 ^ 45"]) simp_all
  show "binary64 9007199254740993 = Num 9007199254740992"
    by (rule binary64_tie [where e = 53 and x = 1 and k = "2 ^ 52"]) simp_all
  show "binary64 9007199254740995 = Num 9007199254740996"
    by (rule binary64_tie [where e = 53 and x = 1 and k = "2 ^ 52 + 1"]) simp_all
  show "binary64 (1 / 10) = Num (3602879701896397 / 36028797018963968)"
    by (rule binary64_near [where e = "- 4" and x = "- 56" and k = 7205759403792794]) simp_all
  show "binary64 (1 / 2 ^ 1075) = Num 0"
    by (rule binary64_tie [where e = "- 1075" and x = "- 1074" and k = 0]) simp_all
  show "binary64 (3 / 2 ^ 1075) = Num (1 / 2 ^ 1073)"
    by (rule binary64_tie [where e = "- 1074" and x = "- 1074" and k = 1]) simp_all
  show "binary64 (2 ^ 1024 - 2 ^ 970 - 1) = Num (2 ^ 1024 - 2 ^ 971)"
    by (rule binary64_near [where e = 1023 and x = 971 and k = "2 ^ 53 - 1"]) simp_all
  show "binary64 (2 ^ 1024 - 2 ^ 970) = Infinity"
    by (rule binary64_overflow) simp
qed

lemma parseFloat_literal:
  assumes "\<forall>c \<in> set ip. is_digit c" "\<forall>c \<in> set fp. is_digit c" "ip \<noteq> [] \<or> fp \<noteq> []"
    and "\<forall>c \<in> set (take 1 rest). \<not> is_digit c"
  shows "parseFloat (ip @ 0x2E # fp @ rest)
         = binary64 (of_nat (digits_value ip) + of_nat (digits_value fp) / 10 ^ length fp)"
proof -
  have d: "\<not> is_digit 0x2E" by (simp add: is_digit_def)
  have 1: "takeWhile is_digit (ip @ 0x2E # fp @ rest) = ip"
    using assms(1) d by (simp add: takeWhile_run)
  have 2: "dropWhile is_digit (ip @ 0x2E # fp @ rest) = 0x2E # fp @ rest"
    using assms(1) d by (simp add: dropWhile_run)
  have 3: "takeWhile is_digit (fp @ rest) = fp"
    using assms(2,4) by (cases rest) (simp_all add: takeWhile_run)
  show ?thesis
    using assms(3) by (auto simp: parseFloat_def 1 2 3)
qed

lemma parseFloat_integer:
  assumes "\<forall>c \<in> set ip. is_digit c" "ip \<noteq> []"
  shows "parseFloat ip = binary64 (of_nat (digits_value ip))"
proof -
  have t: "takeWhile is_digit ip = ip" and d: "dropWhile is_digit ip = []"
    using assms(1) by simp_all
  show ?thesis
    using assms(2) by (simp add: parseFloat_def t d digits_value_def)
qed

lemma parseFloat_no_literal:
  assumes "\<forall>c \<in> set (take 1 r). \<not> is_digit c"
  shows "parseFloat (0x2E # r) = NaN"
proof -
  have d: "\<not> is_digit 0x2E" by (simp add: is_digit_def)
  have "takeWhile is_digit r = []"
    using assms by (cases r) auto
  then show ?thesis
    using d by (simp add: parseFloat_def)
qed

lemma parseFloat_NaN_iff:
  "parseFloat m = NaN \<longleftrightarrow>
   (\<forall>c \<in> set (take 1 m). \<not> is_digit c \<and> (c = 0x2E \<longrightarrow> (\<forall>d \<in> set (take 1 (tl m)). \<not> is_digit d)))"
proof (cases m)
  case Nil
  then show ?thesis by (simp add: parseFloat_def)
next
  case (Cons c r)
  show ?thesis
  proof (cases "is_digit c")
    case True
    then show ?thesis by (simp add: Cons parseFloat_def Let_def binary64_not_NaN)
  next
    case False
    show ?thesis
    proof (cases r)
      case Nil
      with False show ?thesis by (simp add: Cons parseFloat_def)
    next
      case (Cons d r')
      with False show ?thesis
        by (simp add: \<open>m = c # r\<close> parseFloat_def Let_def binary64_not_NaN)
    qed
  qed
qed

text \<open>A run of 310 digits or more that does not begin with 0 is beyond the finite values.\<close>

lemma foldl_digits_ge:
  "a * 10 ^ length ds \<le> foldl (\<lambda>a c. 10 * a + unat (c - (0x30 :: 16 word))) a ds"
proof (induction ds arbitrary: a)
  case Nil
  then show ?case by simp
next
  case (Cons d ds)
  have "a * 10 ^ length (d # ds) \<le> (10 * a + unat (d - 0x30)) * 10 ^ length ds"
    by (simp add: algebra_simps)
  also note Cons.IH
  finally show ?case by simp
qed

lemma digits_value_ge:
  assumes "is_digit c" "c \<noteq> 0x30"
  shows "10 ^ length ds \<le> digits_value (c # ds)"
proof -
  from assms have "0x30 < c" by (simp add: is_digit_def less_le)
  then have "0 < c - 0x30" by (simp add: word_less_nat_alt unat_sub word_le_nat_alt)
  then have "1 \<le> unat (c - 0x30)" by (simp add: word_less_nat_alt)
  then have "1 * 10 ^ length ds \<le> unat (c - 0x30) * 10 ^ length ds"
    by (intro mult_right_mono) simp_all
  also have "\<dots> \<le> foldl (\<lambda>a c. 10 * a + unat (c - (0x30 :: 16 word))) (unat (c - 0x30)) ds"
    by (rule foldl_digits_ge)
  finally show ?thesis by (simp add: digits_value_def)
qed

lemma parseFloat_long:
  assumes "\<forall>c \<in> set ip. is_digit c" "310 \<le> length ip" "hd ip \<noteq> 0x30"
  shows "parseFloat ip = Infinity"
proof -
  from assms(2) obtain c ds where ip: "ip = c # ds" by (cases ip) auto
  with assms have c: "is_digit c" "c \<noteq> 0x30" and l: "309 \<le> length ds" by simp_all
  have "(2::rat) ^ 1024 - 2 ^ 970 \<le> 10 ^ 309" by simp
  also have "(10::rat) ^ 309 \<le> 10 ^ length ds"
    using l by (intro power_increasing) simp_all
  also have "(10::rat) ^ length ds = of_nat (10 ^ length ds)" by simp
  also have "\<dots> \<le> of_nat (digits_value ip)"
    unfolding ip of_nat_le_iff using c by (rule digits_value_ge)
  finally have "binary64 (of_nat (digits_value ip)) = Infinity" by (rule binary64_overflow)
  moreover from ip have "ip \<noteq> []" by simp
  ultimately show ?thesis using assms(1) by (simp add: parseFloat_integer)
qed

text \<open>
  C8 (amended). \<open>parseCoverage\<close> gives 0 for \<open>null\<close>, for \<open>undefined\<close>, for the empty string
  and for every string that does not contain \<^verbatim>\<open>>\<close>, a run of digits and dots that is not
  empty, and \<^verbatim>\<open><\<close>. On a string that contains one, with \<open>m\<close> the run of the first of
  them, it gives \<open>parseFloat m\<close>: the binary64 value of the decimal literal the run starts
  with (73.5 for \<^verbatim>\<open><span>73.5</span>\<close>), and \<open>NaN\<close>, which is neither 0 nor a number
  of the string, when the run starts with no literal, as a run of dots does. The binary64
  value of a decimal below \<open>2^1024 - 2^970\<close> is a finite binary64 value that no other is
  nearer to the decimal than, and it is \<open>Infinity\<close> from there on, which a run of 310
  digits reaches. On a string, \<open>null\<close> or \<open>undefined\<close> the function does not raise; on any
  other value that is truthy it raises a \<^verbatim>\<open>TypeError\<close>.
\<close>

theorem parseCoverage_cases:
  "parseCoverage None = Inr (Num 0) \<and> parseCoverage (Some JNull) = Inr (Num 0) \<and>
   parseCoverage (Some (JString [])) = Inr (Num 0) \<and>
   parseCoverage (Some (JString (ascii ''<span>73.5</span>''))) = Inr (Num (147 / 2)) \<and>
   (\<not> contains_pattern s \<longrightarrow> parseCoverage (Some (JString s)) = Inr (Num 0)) \<and>
   (\<not> contains_pattern pre \<and> m \<noteq> [] \<and> (\<forall>c \<in> set m. in_class c) \<longrightarrow>
      parseCoverage (Some (JString (pre @ 0x3E # m @ 0x3C # post))) = Inr (parseFloat m)) \<and>
   ((\<forall>c \<in> set ip. is_digit c) \<and> ip \<noteq> [] \<longrightarrow>
      parseFloat ip = binary64 (of_nat (digits_value ip))) \<and>
   ((\<forall>c \<in> set ip. is_digit c) \<and> (\<forall>c \<in> set fp. is_digit c) \<and> (ip \<noteq> [] \<or> fp \<noteq> []) \<and>
    (\<forall>c \<in> set (take 1 rest). \<not> is_digit c) \<longrightarrow>
      parseFloat (ip @ 0x2E # fp @ rest)
        = binary64 (of_nat (digits_value ip) + of_nat (digits_value fp) / 10 ^ length fp)) \<and>
   ((\<forall>c \<in> set (take 1 r). \<not> is_digit c) \<longrightarrow> parseFloat (0x2E # r) = NaN) \<and>
   ((\<forall>c \<in> set ds. is_digit c) \<and> 310 \<le> length ds \<and> hd ds \<noteq> 0x30 \<longrightarrow>
      parseFloat ds = Infinity) \<and>
   (0 \<le> q \<and> q < 2 ^ 1024 - 2 ^ 970 \<longrightarrow>
      (\<exists>v. binary64 q = Num v \<and> is_binary64 v \<and> (\<forall>w. is_binary64 w \<longrightarrow> \<bar>v - q\<bar> \<le> \<bar>w - q\<bar>))) \<and>
   (2 ^ 1024 - 2 ^ 970 \<le> q \<longrightarrow> binary64 q = Infinity) \<and>
   (\<exists>n. parseCoverage (Some (JString s)) = Inr n) \<and>
   (truthy j \<and> (\<forall>t. j \<noteq> Some (JString t)) \<longrightarrow> parseCoverage j = Inl TypeError)"
proof -
  have z: "parseCoverage None = Inr (Num 0)" "parseCoverage (Some JNull) = Inr (Num 0)"
    "parseCoverage (Some (JString [])) = Inr (Num 0)"
    by (simp_all add: parseCoverage_def truthy_def)
  have v: "digits_value (ascii ''73'') = 73" "digits_value (ascii ''5'') = 5"
    by (simp_all add: ascii_def digits_value_def)
  have "parseFloat (ascii ''73'' @ 0x2E # ascii ''5'' @ [])
      = binary64 (of_nat (digits_value (ascii ''73''))
          + of_nat (digits_value (ascii ''5'')) / 10 ^ length (ascii ''5''))"
    by (rule parseFloat_literal) (simp_all add: ascii_def is_digit_def)
  then have "parseFloat (ascii ''73.5'') = binary64 (147 / 2)"
    by (simp add: v) (simp add: ascii_def)
  then have f: "parseFloat (ascii ''73.5'') = Num (147 / 2)"
    by (simp only: binary64_examples(1))
  have "regex_match (ascii ''<span'' @ 0x3E # ascii ''73.5'' @ 0x3C # ascii ''/span>'')
      = Some (ascii ''73.5'')"
    by (rule regex_match_first) (simp_all add: ascii_def in_class_def is_digit_def)
  then have a: "parseCoverage (Some (JString (ascii ''<span>73.5</span>''))) = Inr (Num (147 / 2))"
    using f by (simp add: parseCoverage_def truthy_def) (simp add: ascii_def)
  have b: "\<not> contains_pattern s \<longrightarrow> parseCoverage (Some (JString s)) = Inr (Num 0)"
    by (simp add: contains_pattern_iff parseCoverage_def)
  have c: "\<not> contains_pattern pre \<and> m \<noteq> [] \<and> (\<forall>c \<in> set m. in_class c) \<longrightarrow>
      parseCoverage (Some (JString (pre @ 0x3E # m @ 0x3C # post))) = Inr (parseFloat m)"
    using regex_match_first [of pre m post]
    by (simp add: contains_pattern_iff parseCoverage_def truthy_def)
  have d: "\<exists>n. parseCoverage (Some (JString s)) = Inr n"
    by (simp add: parseCoverage_def split: option.split)
  have e: "truthy j \<and> (\<forall>t. j \<noteq> Some (JString t)) \<longrightarrow> parseCoverage j = Inl TypeError"
    by (auto simp: parseCoverage_def split: option.split json.split)
  have g: "0 \<le> q \<and> q < 2 ^ 1024 - 2 ^ 970 \<longrightarrow>
      (\<exists>v. binary64 q = Num v \<and> is_binary64 v \<and> (\<forall>w. is_binary64 w \<longrightarrow> \<bar>v - q\<bar> \<le> \<bar>w - q\<bar>))"
    using binary64_finite [of q] by blast
  have h: "2 ^ 1024 - 2 ^ 970 \<le> q \<longrightarrow> binary64 q = Infinity"
    using binary64_overflow [of q] by blast
  have i: "(\<forall>c \<in> set ip. is_digit c) \<and> ip \<noteq> [] \<longrightarrow>
      parseFloat ip = binary64 (of_nat (digits_value ip))"
    using parseFloat_integer [of ip] by blast
  have k: "(\<forall>c \<in> set ip. is_digit c) \<and> (\<forall>c \<in> set fp. is_digit c) \<and> (ip \<noteq> [] \<or> fp \<noteq> []) \<and>
    (\<forall>c \<in> set (take 1 rest). \<not> is_digit c) \<longrightarrow>
      parseFloat (ip @ 0x2E # fp @ rest)
        = binary64 (of_nat (digits_value ip) + of_nat (digits_value fp) / 10 ^ length fp)"
    using parseFloat_literal [of ip fp rest] by blast
  have l: "(\<forall>c \<in> set (take 1 r). \<not> is_digit c) \<longrightarrow> parseFloat (0x2E # r) = NaN"
    using parseFloat_no_literal [of r] by blast
  have n: "(\<forall>c \<in> set ds. is_digit c) \<and> 310 \<le> length ds \<and> hd ds \<noteq> 0x30 \<longrightarrow>
      parseFloat ds = Infinity"
    using parseFloat_long [of ds] by blast
  from z a b c i k l n g h d e show ?thesis by (intro conjI)
qed

theorem parseCoverage_cases_witness:
  "parseCoverage (Some (JString (ascii ''<td class=x>12.25</td>''))) = Inr (Num (49 / 4)) \<and>
   parseCoverage (Some (JString (ascii ''95.0''))) = Inr (Num 0) \<and>
   parseCoverage (Some (JString (ascii ''>95.0''))) = Inr (Num 0) \<and>
   parseCoverage (Some (JString (ascii ''95.0<''))) = Inr (Num 0) \<and>
   parseCoverage (Some (JString (ascii ''> 95 <''))) = Inr (Num 0) \<and>
   parseCoverage (Some (JString (ascii ''>9007199254740993<''))) = Inr (Num 9007199254740992) \<and>
   parseCoverage (Some (JString (ascii ''>0.1<'')))
     = Inr (Num (3602879701896397 / 36028797018963968)) \<and>
   parseCoverage (Some (JString (0x3E # replicate 400 0x39 @ [0x3C]))) = Inr Infinity \<and>
   parseCoverage (Some (JString (ascii ''>..5<''))) = Inr NaN \<and>
   parseCoverage (Some (JNumber 5)) = Inl TypeError \<and>
   is_binary64 (3602879701896397 / 36028797018963968) \<and>
   \<bar>3602879701896397 / 36028797018963968 - 1 / 10\<bar> \<le> \<bar>(1 / 8 :: rat) - 1 / 10\<bar> \<and>
   binary64 (10 ^ 400) = Infinity"
proof -
  note ev = ascii_def in_class_def is_digit_def digits_value_def
  have none: "\<not> contains_pattern []" "\<not> contains_pattern (ascii ''<td class=x'')"
    "\<not> contains_pattern (ascii ''95.0'')" "\<not> contains_pattern (ascii ''>95.0'')"
    "\<not> contains_pattern (ascii ''95.0<'')" "\<not> contains_pattern (ascii ''> 95 <'')"
    by (simp_all add: contains_pattern_iff ev)
  have 1: "parseCoverage (Some (JString (ascii ''<td class=x>12.25</td>''))) = Inr (Num (49 / 4))"
  proof -
    note t = parseCoverage_cases [where pre = "ascii ''<td class=x''" and m = "ascii ''12.25''"
        and post = "ascii ''/td>''" and ip = "ascii ''12''" and fp = "ascii ''25''" and rest = "[]"]
    have m: "ascii ''12.25'' \<noteq> []" "\<forall>c \<in> set (ascii ''12.25''). in_class c"
      by (simp_all add: ev)
    from t none(2) m
    have "parseCoverage (Some (JString (ascii ''<td class=x'' @ 0x3E # ascii ''12.25'' @ 0x3C # ascii ''/td>'')))
        = Inr (parseFloat (ascii ''12.25''))"
      by blast
    then have a: "parseCoverage (Some (JString (ascii ''<td class=x>12.25</td>'')))
        = Inr (parseFloat (ascii ''12.25''))"
      by (simp add: ascii_def)
    have d: "\<forall>c \<in> set (ascii ''12''). is_digit c" "\<forall>c \<in> set (ascii ''25''). is_digit c"
      "ascii ''12'' \<noteq> [] \<or> ascii ''25'' \<noteq> []" "\<forall>c \<in> set (take 1 []). \<not> is_digit c"
      by (simp_all add: ev)
    from t d
    have "parseFloat (ascii ''12'' @ 0x2E # ascii ''25'' @ [])
        = binary64 (of_nat (digits_value (ascii ''12''))
            + of_nat (digits_value (ascii ''25'')) / 10 ^ length (ascii ''25''))"
      by blast
    moreover have "digits_value (ascii ''12'') = 12" "digits_value (ascii ''25'') = 25"
      "length (ascii ''25'') = 2"
      by (simp_all add: ev)
    ultimately have "parseFloat (ascii ''12'' @ 0x2E # ascii ''25'' @ []) = binary64 (49 / 4)"
      by simp
    moreover have "binary64 (49 / 4) = Num (49 / 4)"
      by (rule binary64_near [where e = 3 and x = "- 49" and k = "49 * 2 ^ 47"]) simp_all
    ultimately have "parseFloat (ascii ''12.25'') = Num (49 / 4)"
      by (simp add: ascii_def)
    with a show ?thesis by simp
  qed
  have 2: "parseCoverage (Some (JString (ascii ''95.0''))) = Inr (Num 0)"
    using parseCoverage_cases [where s = "ascii ''95.0''"] none(3) by blast
  have 3: "parseCoverage (Some (JString (ascii ''>95.0''))) = Inr (Num 0)"
    using parseCoverage_cases [where s = "ascii ''>95.0''"] none(4) by blast
  have 4: "parseCoverage (Some (JString (ascii ''95.0<''))) = Inr (Num 0)"
    using parseCoverage_cases [where s = "ascii ''95.0<''"] none(5) by blast
  have 5: "parseCoverage (Some (JString (ascii ''> 95 <''))) = Inr (Num 0)"
    using parseCoverage_cases [where s = "ascii ''> 95 <''"] none(6) by blast
  have 6: "parseCoverage (Some (JString (ascii ''>9007199254740993<'')))
      = Inr (Num 9007199254740992)"
  proof -
    note t = parseCoverage_cases [where pre = "[]" and m = "ascii ''9007199254740993''"
        and post = "[]" and ip = "ascii ''9007199254740993''"]
    have m: "ascii ''9007199254740993'' \<noteq> []" "\<forall>c \<in> set (ascii ''9007199254740993''). in_class c"
      "\<forall>c \<in> set (ascii ''9007199254740993''). is_digit c"
      by (simp_all add: ev)
    from t none(1) m
    have "parseCoverage (Some (JString ([] @ 0x3E # ascii ''9007199254740993'' @ 0x3C # [])))
        = Inr (parseFloat (ascii ''9007199254740993''))"
      by blast
    moreover from t m
    have "parseFloat (ascii ''9007199254740993'')
        = binary64 (of_nat (digits_value (ascii ''9007199254740993'')))"
      by blast
    moreover have "digits_value (ascii ''9007199254740993'') = 9007199254740993"
      by (simp add: ev)
    ultimately have "parseCoverage (Some (JString ([] @ 0x3E # ascii ''9007199254740993'' @ 0x3C # [])))
        = Inr (Num 9007199254740992)"
      by (simp add: binary64_examples(2))
    then show ?thesis by (simp add: ascii_def)
  qed
  have 7: "parseCoverage (Some (JString (ascii ''>0.1<'')))
     = Inr (Num (3602879701896397 / 36028797018963968))"
  proof -
    note t = parseCoverage_cases [where pre = "[]" and m = "ascii ''0.1''"
        and post = "[]" and ip = "ascii ''0''" and fp = "ascii ''1''" and rest = "[]"]
    have m: "ascii ''0.1'' \<noteq> []" "\<forall>c \<in> set (ascii ''0.1''). in_class c"
      by (simp_all add: ev)
    from t none(1) m
    have a: "parseCoverage (Some (JString ([] @ 0x3E # ascii ''0.1'' @ 0x3C # [])))
        = Inr (parseFloat (ascii ''0.1''))"
      by blast
    have d: "\<forall>c \<in> set (ascii ''0''). is_digit c" "\<forall>c \<in> set (ascii ''1''). is_digit c"
      "ascii ''0'' \<noteq> [] \<or> ascii ''1'' \<noteq> []" "\<forall>c \<in> set (take 1 []). \<not> is_digit c"
      by (simp_all add: ev)
    from t d
    have "parseFloat (ascii ''0'' @ 0x2E # ascii ''1'' @ [])
        = binary64 (of_nat (digits_value (ascii ''0''))
            + of_nat (digits_value (ascii ''1'')) / 10 ^ length (ascii ''1''))"
      by blast
    moreover have "digits_value (ascii ''0'') = 0" "digits_value (ascii ''1'') = 1"
      "length (ascii ''1'') = 1"
      by (simp_all add: ev)
    ultimately have "parseFloat (ascii ''0'' @ 0x2E # ascii ''1'' @ [])
        = Num (3602879701896397 / 36028797018963968)"
      by (simp add: binary64_examples(4))
    then have "parseFloat (ascii ''0.1'') = Num (3602879701896397 / 36028797018963968)"
      by (simp add: ascii_def)
    with a show ?thesis by (simp add: ascii_def)
  qed
  have 8: "parseCoverage (Some (JString (0x3E # replicate 400 0x39 @ [0x3C]))) = Inr Infinity"
  proof -
    note t = parseCoverage_cases [where pre = "[]" and m = "replicate 400 0x39"
        and post = "[]" and ds = "replicate 400 0x39"]
    have m: "replicate 400 (0x39 :: 16 word) \<noteq> []" "\<forall>c \<in> set (replicate 400 0x39). in_class c"
      "\<forall>c \<in> set (replicate 400 0x39). is_digit c" "310 \<le> length (replicate 400 (0x39 :: 16 word))"
      "hd (replicate 400 (0x39 :: 16 word)) \<noteq> 0x30"
      by (simp_all add: in_class_def is_digit_def hd_replicate)
    from t none(1) m
    have "parseCoverage (Some (JString ([] @ 0x3E # replicate 400 0x39 @ 0x3C # [])))
        = Inr (parseFloat (replicate 400 0x39))"
      by blast
    moreover from t m have "parseFloat (replicate 400 0x39) = Infinity"
      by blast
    ultimately show ?thesis by simp
  qed
  have 9: "parseCoverage (Some (JString (ascii ''>..5<''))) = Inr NaN"
  proof -
    note t = parseCoverage_cases [where pre = "[]" and m = "ascii ''..5''"
        and post = "[]" and r = "ascii ''.5''"]
    have m: "ascii ''..5'' \<noteq> []" "\<forall>c \<in> set (ascii ''..5''). in_class c"
      "\<forall>c \<in> set (take 1 (ascii ''.5'')). \<not> is_digit c"
      by (simp_all add: ev)
    from t none(1) m
    have "parseCoverage (Some (JString ([] @ 0x3E # ascii ''..5'' @ 0x3C # [])))
        = Inr (parseFloat (ascii ''..5''))"
      by blast
    moreover from t m have "parseFloat (0x2E # ascii ''.5'') = NaN"
      by blast
    ultimately show ?thesis by (simp add: ascii_def)
  qed
  have 10: "parseCoverage (Some (JNumber 5)) = Inl TypeError"
    using parseCoverage_cases [where j = "Some (JNumber 5)"] by (simp add: truthy_def)
  have 11: "is_binary64 (3602879701896397 / 36028797018963968)"
    "\<bar>3602879701896397 / 36028797018963968 - 1 / 10\<bar> \<le> \<bar>(1 / 8 :: rat) - 1 / 10\<bar>"
  proof -
    have "(0::rat) \<le> 1 / 10 \<and> (1 / 10 :: rat) < 2 ^ 1024 - 2 ^ 970" by simp
    with parseCoverage_cases [where q = "1 / 10"] obtain v where
      v: "binary64 (1 / 10) = Num v" "is_binary64 v"
        "\<forall>w. is_binary64 w \<longrightarrow> \<bar>v - 1 / 10\<bar> \<le> \<bar>w - 1 / 10\<bar>"
      by blast
    from v(1) have e: "v = 3602879701896397 / 36028797018963968"
      by (simp add: binary64_examples(4))
    from v(2) show "is_binary64 (3602879701896397 / 36028797018963968)"
      by (simp only: e)
    have "is_binary64 (of_int 1 * 2 powi (- 3))" by (intro is_binary64I) simp_all
    then have "is_binary64 (1 / 8)" by simp
    with v(3) have "\<bar>v - 1 / 10\<bar> \<le> \<bar>(1 / 8 :: rat) - 1 / 10\<bar>" by blast
    then show "\<bar>3602879701896397 / 36028797018963968 - 1 / 10\<bar> \<le> \<bar>(1 / 8 :: rat) - 1 / 10\<bar>"
      by (simp only: e)
  qed
  have 12: "binary64 (10 ^ 400) = Infinity"
  proof -
    have "(2::rat) ^ 1024 - 2 ^ 970 \<le> 10 ^ 400" by simp
    with parseCoverage_cases [where q = "10 ^ 400"] show ?thesis by blast
  qed
  from 1 2 3 4 5 6 7 8 9 10 11 12 show ?thesis by (intro conjI)
qed

theorem parseCoverage_dot_counterexample:
  "regex_match (ascii ''>.<'') = Some (ascii ''.'') \<and>
   parseCoverage (Some (JString (ascii ''>.<''))) = Inr NaN"
  by (simp add: parseCoverage_def truthy_def ascii_def parseFloat_def in_class_def is_digit_def)

subsection \<open>streamJsonArray\<close>


lemma reject_fields [simp]:
  "totalProcessed (reject e s) = totalProcessed s" "batch (reject e s) = batch s"
  "source (reject e s) = source s" "flushing (reject e s) = flushing s"
  "finished (reject e s) = finished s" "paused (reject e s) = paused s"
  "promises (reject e s) = promises s" "invocations (reject e s) = invocations s"
  "awaited (reject e s) = awaited s"
  by (simp_all add: reject_def)


lemma resolve_fields [simp]:
  "totalProcessed (resolve n s) = totalProcessed s" "batch (resolve n s) = batch s"
  "source (resolve n s) = source s" "flushing (resolve n s) = flushing s"
  "finished (resolve n s) = finished s" "paused (resolve n s) = paused s"
  "promises (resolve n s) = promises s" "invocations (resolve n s) = invocations s"
  "awaited (resolve n s) = awaited s"
  by (simp_all add: resolve_def)

lemma resolve_outcome: "outcome (resolve n s) = (if outcome s = Pending then Resolved n else outcome s)"
  by (simp add: resolve_def)


lemma counted_resolve: "counted N s \<Longrightarrow> counted N (resolve N s)"
  by (auto simp: counted_def resolve_outcome split: settlement.splits)










lemma run_append:
  "run bs s (evs @ evs') = (case run bs s evs of None \<Rightarrow> None | Some s' \<Rightarrow> run bs s' evs')"
  by (induction evs arbitrary: s) (auto split: option.splits)













lemma run_stuck:
  "run bs s0 evs = Some s \<Longrightarrow> step bs s ev = None \<Longrightarrow> run bs s0 (evs @ ev # evs') = None"
  by (simp add: run_append)

text \<open>
  The end of the pipeline can come while it is paused. Seven elements and batch size 1:
  after four elements the pipeline is paused for the first three calls; they are fulfilled,
  out of order, three more elements follow and the pipeline is paused again, for the calls
  3, 4 and 5, with call 6 alone in \<open>promises\<close>. When the end comes now, the end listener
  waits for call 6 only, and resolves with 7 while the calls 3, 4 and 5 are in flight.
\<close>

lemma stream_end_while_paused:
  "map_option (\<lambda>s. (outcome s, paused s, promises s, awaited s, in_flight s))
     (run 1 (streamJsonArray [0, 1, 2, 3, 4, 5, 6 :: nat] :: (nat, unit) reader)
        [Data, Data, Data, Data, Fulfil 1, Fulfil 0, Fulfil 2, Data, Data, Data])
   = Some (Pending, True, [6], Some [3, 4, 5], 4) \<and>
   map_option (\<lambda>s. (outcome s, in_flight s))
     (run 1 (streamJsonArray [0, 1, 2, 3, 4, 5, 6 :: nat] :: (nat, unit) reader)
        [Data, Data, Data, Data, Fulfil 1, Fulfil 0, Fulfil 2, Data, Data, Data, End, Fulfil 6])
   = Some (Resolved 7, 3)"
  by code_simp



lemma covered_iff:
  "covered s ks \<longleftrightarrow> (\<forall>k < length (invocations s). snd (invocations s ! k) = Unsettled \<longrightarrow> k \<in> set ks)"
  by (auto simp: covered_def list_all_iff)

lemma covered_count:
  assumes "covered s ks"
  shows "in_flight s \<le> length ks"
proof -
  have "in_flight s = card {k. k < length (invocations s) \<and> snd (invocations s ! k) = Unsettled}"
    by (simp add: in_flight_def length_filter_conv_card)
  also have "\<dots> \<le> card (set ks)"
    using assms by (intro card_mono) (auto simp: covered_iff)
  also have "\<dots> \<le> length ks" by (rule card_length)
  finally show ?thesis .
qed

lemma in_flight_call [simp]: "in_flight (call_processor b s) = in_flight s + 1"
  by (simp add: in_flight_def call_processor_def)

lemma in_flight_same: "invocations s' = invocations s \<Longrightarrow> in_flight s' = in_flight s"
  by (simp add: in_flight_def)

lemma covered_same: "invocations s' = invocations s \<Longrightarrow> covered s' ks = covered s ks"
  by (simp add: covered_iff)

lemma unsettled_update:
  "j < length xs \<Longrightarrow> snd (xs[k := (x, p)] ! j) = Unsettled \<Longrightarrow> p \<noteq> Unsettled \<Longrightarrow>
   snd (xs ! j) = Unsettled"
  by (cases "j = k") simp_all

lemma in_flight_update:
  assumes "p \<noteq> Unsettled"
  shows "in_flight (s\<lparr>invocations := (invocations s)[k := (x, p)]\<rparr>) \<le> in_flight s"
proof -
  let ?u = "(invocations s)[k := (x, p)]"
  have "card {j. j < length ?u \<and> snd (?u ! j) = Unsettled}
        \<le> card {j. j < length (invocations s) \<and> snd (invocations s ! j) = Unsettled}"
    using assms by (intro card_mono) (auto dest: unsettled_update)
  then show ?thesis
    by (simp add: in_flight_def length_filter_conv_card)
qed

lemma covered_update:
  assumes "covered s ks" "p \<noteq> Unsettled"
  shows "covered (s\<lparr>invocations := (invocations s)[k := (x, p)]\<rparr>) ks"
  using assms by (auto simp: covered_iff dest: unsettled_update)

lemma covered_call:
  assumes "covered s ks"
  shows "covered (call_processor b s) (ks @ [length (invocations s)])"
  using assms by (auto simp: covered_iff call_processor_def nth_append)

lemma bounded_same:
  assumes "bounded s" "invocations s' = invocations s" "promises s' = promises s"
    "awaited s' = awaited s" "paused s' = paused s" "finished s' = finished s"
    "batch s' = batch s"
  shows "bounded s'"
  using assms
  by (cases "awaited s")
    (simp_all add: bounded_def in_flight_same [OF assms(2)] covered_same [OF assms(2)])

lemma bounded_init: "bounded (streamJsonArray xs)"
  by (simp add: bounded_def streamJsonArray_def in_flight_def covered_iff)

lemma bounded_finished:
  assumes "in_flight s \<le> CONCURRENCY + 1" "finished s"
  shows "bounded s"
  using assms by (simp add: bounded_def)

lemma all_fulfilledD:
  "all_fulfilled s g \<Longrightarrow> k \<in> set g \<Longrightarrow> k < length (invocations s) \<Longrightarrow>
   snd (invocations s ! k) = Fulfilled"
  by (auto simp: all_fulfilled_def list_all_iff promise_of_def)


lemma bounded_group_reaction:
  assumes "bounded s"
  shows "bounded (group_reaction k s)"
proof (cases "awaited s")
  case None
  with assms show ?thesis by (simp add: group_reaction_def)
next
  case (Some g)
  show ?thesis
  proof (cases "finished s")
    case True
    have i: "invocations (group_reaction k s) = invocations s" and f: "finished (group_reaction k s)"
      using True Some by (auto simp: group_reaction_def split: promise.splits)
    have "in_flight (group_reaction k s) \<le> CONCURRENCY + 1"
      using assms in_flight_same [OF i] by (simp add: bounded_def)
    then show ?thesis using f by (rule bounded_finished)
  next
    case False
    with assms Some have b: "in_flight s \<le> CONCURRENCY + 1" "length (promises s) \<le> CONCURRENCY"
      "covered s (promises s @ g)" "paused s" "batch s = []"
      by (auto simp: bounded_def)
    consider (out) "k \<notin> set g" | (rej) e where "k \<in> set g" "promise_of s k = Rejected e"
      | (full) "k \<in> set g" "\<forall>e. promise_of s k \<noteq> Rejected e" "all_fulfilled s g"
      | (wait) "k \<in> set g" "\<forall>e. promise_of s k \<noteq> Rejected e" "\<not> all_fulfilled s g"
      by blast
    then show ?thesis
    proof cases
      case out
      with Some assms show ?thesis by (simp add: group_reaction_def)
    next
      case rej
      then have "group_reaction k s = reject e (s\<lparr>awaited := None\<rparr>)"
        using Some by (simp add: group_reaction_def)
      with b False show ?thesis
        by (simp add: bounded_def in_flight_def)
    next
      case full
      then have g: "group_reaction k s = s\<lparr>awaited := None, paused := False\<rparr>"
        using Some by (auto simp: group_reaction_def split: promise.splits)
      have "covered s (promises s)"
        unfolding covered_iff
      proof (intro allI impI)
        fix j assume j: "j < length (invocations s)" "snd (invocations s ! j) = Unsettled"
        with b(3) have "j \<in> set (promises s) \<or> j \<in> set g" by (auto simp: covered_iff)
        moreover have "j \<notin> set g"
          using all_fulfilledD [OF full(3) _ j(1)] j(2) by auto
        ultimately show "j \<in> set (promises s)" by simp
      qed
      with b False show ?thesis
        unfolding g by (simp add: bounded_def in_flight_def covered_iff)
    next
      case wait
      then have "group_reaction k s = s"
        using Some by (auto simp: group_reaction_def split: promise.splits)
      with assms show ?thesis by simp
    qed
  qed
qed

lemma bounded_flush_reaction:
  assumes "bounded s"
  shows "bounded (flush_reaction k s)"
  using assms
  by (rule bounded_same) (auto simp: flush_reaction_def split: option.splits promise.splits)

lemma bounded_settle:
  assumes "bounded s" "settle k p s = Some s'" "p \<noteq> Unsettled"
  shows "bounded s'"
proof -
  let ?s1 = "s\<lparr>invocations := (invocations s)[k := (fst (invocations s ! k), p)]\<rparr>"
  from assms(2) have s': "s' = flush_reaction k (group_reaction k ?s1)"
    by (auto simp: settle_def split: if_splits)
  have i: "in_flight ?s1 \<le> in_flight s"
    using assms(3) by (rule in_flight_update)
  have c: "covered ?s1 ks" if "covered s ks" for ks
    using that assms(3) by (rule covered_update)
  have "bounded ?s1"
    using assms(1) i c by (cases "awaited s") (auto simp: bounded_def)
  then show ?thesis
    unfolding s' by (intro bounded_flush_reaction bounded_group_reaction)
qed


lemma bounded_call_flowing:
  assumes "covered s (promises s)" "length (promises s) < CONCURRENCY" "awaited s = None"
  shows "bounded (call_processor b s)"
proof -
  have c: "covered (call_processor b s) (promises (call_processor b s))"
    using covered_call [OF assms(1), of b] by (simp add: call_processor_def)
  have "in_flight (call_processor b s) \<le> length (promises (call_processor b s))"
    using c by (rule covered_count)
  then show ?thesis
    using assms(2,3) c by (simp add: bounded_def call_processor_def)
qed

lemma call_processor_fields [simp]:
  "promises (call_processor b s) = promises s @ [length (invocations s)]"
  "awaited (call_processor b s) = awaited s" "paused (call_processor b s) = paused s"
  "finished (call_processor b s) = finished s" "batch (call_processor b s) = batch s"
  by (simp_all add: call_processor_def)

lemma bounded_call_paused:
  assumes "in_flight t \<le> CONCURRENCY" "paused t" "length (promises t) < CONCURRENCY"
    "case awaited t of None \<Rightarrow> True | Some g \<Rightarrow> covered t (promises t @ g)" "batch t = []"
  shows "bounded (call_processor b t)"
proof -
  have "covered (call_processor b t) (promises (call_processor b t) @ g)"
    if "covered t (promises t @ g)" for g
    using covered_call [OF that, of b] by (auto simp: covered_iff)
  with assms show ?thesis
    by (cases "awaited t") (simp_all add: bounded_def)
qed

lemma bounded_on_data:
  assumes "bounded s" "\<not> paused s" "\<not> finished s"
  shows "bounded (on_data bs v s)"
proof (cases "bs \<le> int (length (batch s @ [v]))")
  case False
  have "in_flight (s\<lparr>batch := batch s @ [v]\<rparr>) = in_flight s"
    by (rule in_flight_same) simp
  then have "bounded (s\<lparr>batch := batch s @ [v]\<rparr>)"
    using assms by (simp add: bounded_def covered_iff)
  with False show ?thesis by (simp add: on_data_def)
next
  case True
  from assms have b: "length (promises s) \<le> CONCURRENCY" "awaited s = None"
    "covered s (promises s)"
    by (auto simp: bounded_def)
  let ?s1 = "s\<lparr>batch := [], batchCount := batchCount s + 1,
                totalProcessed := totalProcessed s + length (batch s @ [v])\<rparr>"
  have c1: "covered ?s1 ks = covered s ks" for ks
    by (rule covered_same) simp
  show ?thesis
  proof (cases "CONCURRENCY \<le> length (promises s)")
    case False
    have "bounded (call_processor (batch s @ [v]) ?s1)"
      using b False by (intro bounded_call_flowing) (simp_all add: covered_iff)
    with True False show ?thesis by (simp add: on_data_def Let_def)
  next
    case full: True
    with b(1) have tk: "take CONCURRENCY (promises s) = promises s"
      and dr: "drop CONCURRENCY (promises s) = []"
      by simp_all
    let ?t = "?s1\<lparr>paused := True, promises := []\<rparr>"
    let ?g = "promises s"
    have d: "on_data bs v s = call_processor (batch s @ [v]) (await_group ?g ?t)"
      using True full by (simp add: on_data_def Let_def tk dr)
    have ct: "covered ?t ks = covered s ks" for ks
      by (rule covered_same) simp
    have fl: "in_flight ?t \<le> CONCURRENCY"
    proof -
      have "in_flight ?t = in_flight s" by (rule in_flight_same) simp
      also have "\<dots> \<le> length (promises s)" using b(3) by (rule covered_count)
      finally show ?thesis using b(1) by simp
    qed
    consider (rej) e where "first_rejected ?t ?g = Some e"
      | (ready) "first_rejected ?t ?g = None" "all_fulfilled ?t ?g"
      | (wait) "first_rejected ?t ?g = None" "\<not> all_fulfilled ?t ?g"
      by (cases "first_rejected ?t ?g") auto
    then show ?thesis
    proof cases
      case rej
      then have a: "await_group ?g ?t = reject e ?t" by (simp add: await_group_def)
      have "in_flight (reject e ?t) = in_flight ?t" by (rule in_flight_same) simp
      with fl have "in_flight (reject e ?t) \<le> CONCURRENCY" by simp
      then show ?thesis
        unfolding d a using b(2) by (intro bounded_call_paused) (simp_all add: CONCURRENCY_def)
    next
      case ready
      then have a: "await_group ?g ?t = ?t\<lparr>paused := False\<rparr>" by (simp add: await_group_def)
      have "covered (?t\<lparr>paused := False\<rparr>) []"
        unfolding covered_iff
      proof (intro allI impI)
        fix j assume j: "j < length (invocations (?t\<lparr>paused := False\<rparr>))"
          "snd (invocations (?t\<lparr>paused := False\<rparr>) ! j) = Unsettled"
        then have "j \<in> set (promises s)" using b(3) by (auto simp: covered_iff)
        with all_fulfilledD [OF ready(2), of j] j show "j \<in> set []" by simp
      qed
      then have "bounded (call_processor (batch s @ [v]) (?t\<lparr>paused := False\<rparr>))"
        using b(2) by (intro bounded_call_flowing) (simp_all add: CONCURRENCY_def)
      then show ?thesis unfolding d a .
    next
      case wait
      then have a: "await_group ?g ?t = ?t\<lparr>awaited := Some ?g\<rparr>" by (simp add: await_group_def)
      have c: "covered (?t\<lparr>awaited := Some ?g\<rparr>) ?g"
        using b(3) by (simp add: covered_iff)
      have "in_flight (?t\<lparr>awaited := Some ?g\<rparr>) = in_flight ?t" by (rule in_flight_same) simp
      with fl have "in_flight (?t\<lparr>awaited := Some ?g\<rparr>) \<le> CONCURRENCY" by simp
      then show ?thesis
        unfolding d a using c by (intro bounded_call_paused) (simp_all add: CONCURRENCY_def)
    qed
  qed
qed

lemma bounded_on_end:
  assumes "bounded s" "\<not> finished s"
  shows "bounded (on_end s)"
proof -
  have f: "finished (on_end s)"
    by (auto simp: on_end_def await_all_def call_processor_def resolve_def Let_def
        split: option.splits)
  have "in_flight (on_end s) \<le> CONCURRENCY + 1"
  proof (cases "batch s = []")
    case True
    then have "in_flight (on_end s) = in_flight s"
      by (auto simp: on_end_def await_all_def in_flight_def resolve_def Let_def
          split: option.splits)
    with assms(1) show ?thesis by (simp add: bounded_def)
  next
    case False
    with assms have b: "length (promises s) \<le> CONCURRENCY" "covered s (promises s)"
      by (auto simp: bounded_def)
    have "in_flight (on_end s) \<le> in_flight s + 1"
      by (auto simp: on_end_def await_all_def in_flight_def call_processor_def resolve_def Let_def
          split: option.splits)
    with covered_count [OF b(2)] b(1) show ?thesis by simp
  qed
  then show ?thesis using f by (rule bounded_finished)
qed

lemma bounded_step:
  assumes "bounded s" "step bs s ev = Some s'"
  shows "bounded s'"
proof (cases ev)
  case Data
  with assms(2) obtain v rest where s: "source s = v # rest" "\<not> paused s" "\<not> finished s"
    and s': "s' = on_data bs v (s\<lparr>source := rest\<rparr>)"
    by (auto split: if_splits list.splits)
  have "bounded (s\<lparr>source := rest\<rparr>)"
    using assms(1) by (rule bounded_same) simp_all
  then show ?thesis
    unfolding s' using s by (intro bounded_on_data) simp_all
next
  case End
  with assms show ?thesis by (auto split: if_splits intro: bounded_on_end)
next
  case (Error e)
  with assms(2) have s': "s' = reject e (s\<lparr>finished := True\<rparr>)"
    by (auto split: if_splits)
  have "in_flight s' = in_flight s" unfolding s' by (rule in_flight_same) simp
  with assms(1) have "in_flight s' \<le> CONCURRENCY + 1" by (simp add: bounded_def)
  moreover have "finished s'" unfolding s' by simp
  ultimately show ?thesis by (rule bounded_finished)
next
  case (StageError e)
  with assms(2) have s': "s' = s\<lparr>halted := True\<rparr>"
    by (auto split: if_splits)
  show ?thesis
    unfolding s' using assms(1) by (rule bounded_same) simp_all
next
  case (Fulfil k)
  with assms show ?thesis by (auto intro: bounded_settle)
next
  case (Reject k e)
  with assms show ?thesis by (auto intro: bounded_settle)
qed

lemma bounded_run: "bounded s \<Longrightarrow> run bs s evs = Some s' \<Longrightarrow> bounded s'"
proof (induction evs arbitrary: s)
  case Nil
  then show ?case by simp
next
  case (Cons ev evs)
  then show ?case by (auto split: option.splits dest: bounded_step)
qed

text \<open>
  What the backpressure does guarantee, for every batch size and every order of events:
  never more than \<open>CONCURRENCY + 1\<close> calls in flight.
\<close>

lemma in_flight_bound:
  "run batchSize (streamJsonArray xs) evs = Some s \<Longrightarrow> in_flight s \<le> CONCURRENCY + 1"
  using bounded_run [OF bounded_init, of batchSize xs evs s] by (simp add: bounded_def)

text \<open>
  C1 (what the code does at the failing input). Batch size 100 and an array of 400
  elements: when the parser has emitted them all and no promise of the processor has
  settled yet, four calls are in flight, one more than \<open>CONCURRENCY\<close>. The data listener
  pauses the pipeline and waits for the first three promises, but it has called the
  processor for the fourth batch before they settle. By \<open>in_flight_bound\<close> this is as far
  as it goes.
\<close>

theorem stream_in_flight_exceeds:
  "map_option in_flight
     (run 100 (streamJsonArray (replicate 400 (0::nat)) :: (nat, unit) reader) (replicate 400 Data))
   = Some (CONCURRENCY + 1)"
  by code_simp

text \<open>
  C5 (what the code does at the failing input). An array of one element and batch size
  100: the only call of the processor is the one for the last batch, made by the end
  listener. When its promise rejects, the promise of \<^verbatim>\<open>streamJsonArray\<close> stays pending,
  and no later event can settle it: the listener awaits without a handler, where the data
  listener passes \<open>reject\<close> to \<^verbatim>\<open>catch\<close>.
\<close>

theorem stream_flush_rejection_lost:
  "map_option outcome
     (run 100 (streamJsonArray [0::nat] :: (nat, string) reader) [Data, End, Reject 0 ''boom''])
   = Some Pending \<and>
   (\<forall>ev evs. run 100 (streamJsonArray [0::nat] :: (nat, string) reader)
      ([Data, End, Reject 0 ''boom''] @ ev # evs) = None)"
proof -
  have "\<exists>s. run 100 (streamJsonArray [0::nat] :: (nat, string) reader) [Data, End, Reject 0 ''boom''] = Some s
      \<and> finished s \<and> length (invocations s) = 1 \<and> snd (invocations s ! 0) \<noteq> Unsettled
      \<and> outcome s = Pending"
    by (simp add: streamJsonArray_def on_data_def on_end_def call_processor_def await_all_def
        promise_of_def all_fulfilled_def settle_def group_reaction_def flush_reaction_def)
  then obtain s where s: "run 100 (streamJsonArray [0::nat] :: (nat, string) reader) [Data, End, Reject 0 ''boom''] = Some s"
     "finished s" "length (invocations s) = 1" "snd (invocations s ! 0) \<noteq> Unsettled"
     "outcome s = Pending"
    by blast
  have "step 100 s ev = None" for ev
    using s(2-4) by (cases ev) (auto simp: settle_def)
  with s(1) have "run 100 (streamJsonArray [0::nat] :: (nat, string) reader)
      ([Data, End, Reject 0 ''boom''] @ ev # evs) = None" for ev evs
    by (rule run_stuck)
  with s(1,5) show ?thesis by simp
qed

text \<open>
  The two paths that do reject the returned promise: an error event of the last stage of
  the pipeline, the only stage \<open>reject\<close> listens on, and a rejection inside a group the data
  listener waits for.
\<close>

lemma stream_last_stage_error_rejects:
  "\<not> halted s \<Longrightarrow> \<not> finished s \<Longrightarrow> outcome s = Pending \<Longrightarrow>
   map_option outcome (step batchSize s (Error e)) = Some (Failed e)"
  by (simp add: reject_def)

text \<open>
  An error of the file stream or of the parser reaches neither \<open>resolve\<close> nor \<open>reject\<close>:
  the returned promise is left as it was, and no event follows.
\<close>

lemma stream_stage_error_unheard:
  "step batchSize s (StageError e) = Some s' \<Longrightarrow>
   outcome s' = outcome s \<and> (\<forall>ev. step batchSize s' ev = None)"
proof -
  assume "step batchSize s (StageError e) = Some s'"
  then have s': "s' = s\<lparr>halted := True\<rparr>" by (auto split: if_splits)
  have "step batchSize s' ev = None" for ev
    unfolding s' by (cases ev) (simp_all add: settle_def)
  then show ?thesis unfolding s' by simp
qed

lemma stream_stage_error_pending:
  "map_option outcome
     (run 100 (streamJsonArray [0::nat] :: (nat, string) reader) [Data, StageError ''syntax''])
   = Some Pending"
  by code_simp

lemma stream_group_rejection_rejects:
  "map_option outcome
     (run 1 (streamJsonArray [0, 1, 2, 3 :: nat] :: (nat, string) reader)
        [Data, Data, Data, Data, Reject 1 ''boom''])
   = Some (Failed ''boom'')"
  by code_simp

subsection \<open>processBatches\<close>

lemma settle_call_fields:
  assumes "settle_call k f s = Some s'"
  shows "length (calls s') = length (calls s)" "wave s' = wave s" "status s' = status s"
    "started s' = started s" "k < length (calls s)" "snd (calls s ! k) = Outstanding"
    "calls s' = (calls s)[k := (fst (calls s ! k), f)]"
  using assms by (auto simp: settle_call_def split: if_splits)

lemma joined_iterate:
  assumes "list_all (\<lambda>c. has_value (snd c)) (calls s)"
  shows "joined (iterate s)"
  using assms
  by (auto simp: joined_def iterate_def Let_def list_all_iff nth_append)

lemma joined_settle:
  assumes "joined s" "settle_call k f s = Some s'"
  shows "joined s'"
proof (cases "status s = Active")
  case False
  with settle_call_fields(3) [OF assms(2)] show ?thesis by (simp add: joined_def)
next
  case True
  note f = settle_call_fields [OF assms(2)]
  from True assms(1) f(5,6) have "k \<in> set (wave s)"
    by (auto simp: joined_def list_all_iff has_value_def)
  with True assms(1) f show ?thesis
    by (auto simp: joined_def list_all_iff nth_list_update)
qed

lemma joined_all_values:
  assumes "joined s" "status s = Active" "list_all (\<lambda>k. has_value (future_of s k)) (wave s)"
  shows "list_all (\<lambda>c. has_value (snd c)) (calls s)"
proof -
  have "has_value (snd (calls s ! k))" if "k < length (calls s)" for k
    using assms that by (auto simp: joined_def list_all_iff future_of_def)
  then show ?thesis by (simp add: list_all_length)
qed

lemma joined_advance:
  assumes "joined s" "advance s g = Some s'"
  shows "joined s'"
proof (cases g)
  case (Returns k r)
  with assms show ?thesis by (auto intro: joined_settle)
next
  case (Throws k e)
  with assms obtain t where t: "settle_call k (Reason e) s = Some t"
    and s': "s' = (if status t = Active \<and> k \<in> set (wave t) then t\<lparr>status := Aborted e\<rparr> else t)"
    by (auto split: option.splits)
  from joined_settle [OF assms(1) t] show ?thesis
    unfolding s' by (auto simp: joined_def)
next
  case Wake
  with assms(2) have a: "status s = Active" "list_all (\<lambda>k. has_value (future_of s k)) (wave s)"
    and s': "s' = resume s"
    by (auto split: if_splits)
  from joined_all_values [OF assms(1) a] show ?thesis
    unfolding s' resume_def by (intro joined_iterate) simp
qed

lemma joined_advances: "joined s \<Longrightarrow> advances s gs = Some s' \<Longrightarrow> joined s'"
proof (induction gs arbitrary: s)
  case Nil
  then show ?case by simp
next
  case (Cons g gs)
  then show ?case by (auto split: option.splits dest: joined_advance)
qed

lemma joined_start: "processBatches items batchSize conc = Some s0 \<Longrightarrow> joined s0"
  by (auto simp: processBatches_def split: option.splits intro!: joined_iterate)

lemma barrier_step:
  assumes "joined s" "advance s g = Some s'" "length (calls s) < length (calls s')"
  shows "list_all (\<lambda>c. has_value (snd c)) (calls s)"
proof (cases g)
  case (Returns k r)
  with assms show ?thesis by (auto dest: settle_call_fields(1))
next
  case (Throws k e)
  with assms show ?thesis by (auto split: option.splits if_splits dest: settle_call_fields(1))
next
  case Wake
  with assms show ?thesis by (auto split: if_splits intro: joined_all_values)
qed

lemma throw_aborts:
  assumes "joined s" "status s = Active" "advance s (Throws k e) = Some s'"
  shows "status s' = Aborted e"
proof -
  from assms(3) obtain t where t: "settle_call k (Reason e) s = Some t"
    and s': "s' = (if status t = Active \<and> k \<in> set (wave t) then t\<lparr>status := Aborted e\<rparr> else t)"
    by (auto split: option.splits)
  note f = settle_call_fields [OF t]
  from assms(1,2) f(5,6) have "k \<in> set (wave s)"
    by (auto simp: joined_def list_all_iff has_value_def)
  with f assms(2) show ?thesis unfolding s' by simp
qed

lemma aborted_advance:
  assumes "status s = Aborted e" "advance s g = Some s'"
  shows "status s' = Aborted e \<and> length (calls s') = length (calls s) \<and> started s' = started s"
  using assms
  by (cases g) (auto split: option.splits if_splits dest: settle_call_fields(1,3,4))

lemma aborted_advances:
  "status s = Aborted e \<Longrightarrow> advances s gs = Some s' \<Longrightarrow>
   status s' = Aborted e \<and> length (calls s') = length (calls s) \<and> started s' = started s"
proof (induction gs arbitrary: s)
  case Nil
  then show ?case by simp
next
  case (Cons g gs)
  from Cons.prems(2) obtain t where t: "advance s g = Some t" "advances t gs = Some s'"
    by (auto split: option.splits)
  from aborted_advance [OF Cons.prems(1) t(1)] Cons.IH [OF _ t(2)] show ?case by simp
qed

lemma enumerate_indices:
  "map snd (map (\<lambda>(idx, b). (b, f idx)) (enumerate n xs)) = map f [n ..< n + length xs]"
proof -
  have "map f [n ..< n + length xs] = map f (map fst (enumerate n xs))"
    by simp
  also have "\<dots> = map snd (map (\<lambda>(idx, b). (b, f idx)) (enumerate n xs))"
    unfolding map_map by (rule map_cong) (auto simp: case_prod_unfold)
  finally show ?thesis by simp
qed

lemma iterate_started:
  assumes "0 \<le> loop_i s" "loop_i s < int (length (batches s))" "0 < concurrency s"
  shows "started (iterate s) = started s @
     [map int [nat (loop_i s) ..< min (nat (loop_i s + concurrency s)) (length (batches s))]]"
proof -
  let ?cb = "take (nat (concurrency s)) (drop (nat (loop_i s)) (batches s))"
  have sl: "slice (batches s) (loop_i s) (loop_i s + concurrency s) = ?cb"
    using assms by (simp add: slice_nonneg)
  have "map snd (map (\<lambda>(idx, b). (b, loop_i s + int idx)) (enumerate 0 ?cb))
        = map (\<lambda>idx. loop_i s + int idx) [0 ..< length ?cb]"
    using enumerate_indices [of "\<lambda>idx. loop_i s + int idx" 0 ?cb] by simp
  also have "\<dots> = map int (map (\<lambda>idx. nat (loop_i s) + idx) [0 ..< length ?cb])"
    using assms(1) by simp
  also have "map (\<lambda>idx. nat (loop_i s) + idx) [0 ..< length ?cb]
             = [nat (loop_i s) ..< nat (loop_i s) + length ?cb]"
    by (simp add: map_add_upt add.commute)
  also have "nat (loop_i s) + length ?cb = min (nat (loop_i s + concurrency s)) (length (batches s))"
    using assms by (auto simp: min_def nat_add_distrib)
  finally show ?thesis
    using assms(2) sl by (simp add: iterate_def Let_def)
qed

text \<open>
  C3. Seven batches with concurrency 3 are started in waves of 3, 3 and 1. For every
  input and every order of events: a step that calls the processor finds every earlier
  call fulfilled (the barrier, no sliding window); a rejection while the function is
  running rejects its promise with that reason; and once it is rejected the reason stays
  and the processor is not called again.
\<close>

theorem processBatches_waves:
  "map_option (\<lambda>s. map length (started s))
     (Option.bind (processBatches [1 ..< 8 :: nat] 1 3 :: (nat, unit, string) runner option)
        (\<lambda>s. advances s [Returns 1 (), Returns 0 (), Returns 2 (), Wake,
                          Returns 5 (), Returns 4 (), Returns 3 (), Wake, Returns 6 (), Wake]))
     = Some [3, 3, 1] \<and>
   (processBatches items batchSize conc = Some s0 \<and> advances s0 gs = Some s \<and>
    advance s g = Some s' \<and> length (calls s) < length (calls s') \<longrightarrow>
      list_all (\<lambda>c. has_value (snd c)) (calls s)) \<and>
   (processBatches items batchSize conc = Some s0 \<and> advances s0 gs = Some s \<and>
    status s = Active \<and> advance s (Throws k e) = Some s' \<longrightarrow>
      status s' = Aborted e) \<and>
   (status s' = Aborted e \<and> advances s' gs' = Some s'' \<longrightarrow>
      status s'' = Aborted e \<and> length (calls s'') = length (calls s') \<and>
      started s'' = started s')"
proof -
  have 1: "map_option (\<lambda>s. map length (started s))
     (Option.bind (processBatches [1 ..< 8 :: nat] 1 3 :: (nat, unit, string) runner option)
        (\<lambda>s. advances s [Returns 1 (), Returns 0 (), Returns 2 (), Wake,
                          Returns 5 (), Returns 4 (), Returns 3 (), Wake, Returns 6 (), Wake]))
     = Some [3, 3, 1]"
    by code_simp
  have j: "joined s" if "processBatches items batchSize conc = Some s0" "advances s0 gs = Some s"
    using that by (blast intro: joined_advances joined_start)
  show ?thesis
    using 1 j barrier_step [of s g s'] throw_aborts [of s k e s']
      aborted_advances [of s' e gs' s'']
    by blast
qed

theorem processBatches_waves_witness:
  "\<exists>s0 s s' t u.
     (processBatches [1 ..< 8 :: nat] 1 3 :: (nat, unit, string) runner option) = Some s0 \<and>
     advances s0 [Returns 1 (), Returns 0 (), Returns 2 ()] = Some s \<and>
     advance s Wake = Some s' \<and> length (calls s) < length (calls s') \<and>
     list_all (\<lambda>c. has_value (snd c)) (calls s) \<and>
     status s0 = Active \<and> advance s0 (Throws 1 ''boom'') = Some t \<and> status t = Aborted ''boom'' \<and>
     advances t [Returns 0 (), Returns 2 ()] = Some u \<and> status u = Aborted ''boom'' \<and>
     started u = started t"
proof -
  let ?p = "processBatches [1 ..< 8 :: nat] 1 3 :: (nat, unit, string) runner option"
  have "case ?p of None \<Rightarrow> False
        | Some s0 \<Rightarrow> status s0 = Active \<and>
            (case advances s0 [Returns 1 (), Returns 0 (), Returns 2 ()] of None \<Rightarrow> False
             | Some s \<Rightarrow> (case advance s Wake of None \<Rightarrow> False
                           | Some s' \<Rightarrow> length (calls s) < length (calls s'))) \<and>
            (case advance s0 (Throws 1 ''boom'') of None \<Rightarrow> False
             | Some t \<Rightarrow> (case advances t [Returns 0 (), Returns 2 ()] of None \<Rightarrow> False
                           | Some u \<Rightarrow> True))"
    by code_simp
  then obtain s0 s s' t u where h: "?p = Some s0" "status s0 = Active"
    "advances s0 [Returns 1 (), Returns 0 (), Returns 2 ()] = Some s"
    "advance s Wake = Some s'" "length (calls s) < length (calls s')"
    "advance s0 (Throws 1 ''boom'') = Some t" "advances t [Returns 0 (), Returns 2 ()] = Some u"
    by (auto split: option.splits)
  have z: "advances s0 [] = Some s0" by simp
  from processBatches_waves [of "[1 ..< 8]" 1 3 s0 "[Returns 1 (), Returns 0 (), Returns 2 ()]"
      s Wake s'] h
  have b: "list_all (\<lambda>c. has_value (snd c)) (calls s)" by blast
  from processBatches_waves [of "[1 ..< 8]" 1 3 s0 "[]" s0 _ t 1 "''boom''"
      "[Returns 0 (), Returns 2 ()]" u] h z
  have a: "status t = Aborted ''boom''" "status u = Aborted ''boom''" "started u = started t"
    by blast+
  from h a b show ?thesis by blast
qed

subsection \<open>importExtensions\<close>

text \<open>
  The assignment of the conflict clause changes nothing, so a statement never changes a
  row that was stored before it.
\<close>

lemma conflict_set_same: "conflict_set existing excluded = existing"
  by (simp add: conflict_set_def)

lemma upsert_rows_keeps:
  "take (length (table_rows t)) (table_rows (fst (upsert_rows vs t))) = table_rows t"
proof (induction vs arbitrary: t)
  case Nil
  then show ?case by simp
next
  case (Cons v vs)
  let ?t1 = "if name v \<in> set (map name (table_rows t))
             then t\<lparr>table_rows :=
                       map (\<lambda>r. if name r = name v then conflict_set r v else r) (table_rows t),
                     next_id := next_id t + 1\<rparr>
             else t\<lparr>table_rows := table_rows t @
                       [\<lparr>name = name v, dateAdded = dateAdded v, hasFeatures = hasFeatures v,
                         hasProperties = hasProperties v, row_id = next_id t\<rparr>],
                     next_id := next_id t + 1\<rparr>"
  have f: "fst (upsert_rows (v # vs) t) = fst (upsert_rows vs ?t1)"
    by (simp add: Let_def case_prod_unfold)
  have p: "take (length (table_rows t)) (table_rows ?t1) = table_rows t"
    by (simp add: conflict_set_same cong: if_cong)
  have l: "length (table_rows t) \<le> length (table_rows ?t1)"
    by simp
  have "take (length (table_rows t)) (table_rows (fst (upsert_rows vs ?t1)))
        = take (length (table_rows t)) (take (length (table_rows ?t1)) (table_rows (fst (upsert_rows vs ?t1))))"
    using l by (simp add: min_def)
  also have "\<dots> = take (length (table_rows t)) (table_rows ?t1)"
    by (simp only: Cons.IH)
  finally show ?case
    using p f by simp
qed

lemma insert_batches_keeps:
  "insert_batches bs (t, m) = Inr (t', m') \<Longrightarrow>
   take (length (table_rows t)) (table_rows t') = table_rows t"
proof (induction bs arbitrary: t m)
  case Nil
  then show ?case by simp
next
  case (Cons b bs)
  from Cons.prems obtain t1 rs where 1: "insert_extensions b t = Inr (t1, rs)"
    and 2: "insert_batches bs (t1, set_all rs m) = Inr (t', m')"
    by (auto split: sum.splits)
  from 1 have t1: "t1 = fst (upsert_rows b t)"
    by (auto simp: insert_extensions_def split: if_splits)
  have k: "take (length (table_rows t)) (table_rows t1) = table_rows t"
    unfolding t1 by (rule upsert_rows_keeps)
  have "length (take (length (table_rows t)) (table_rows t1)) = length (table_rows t)"
    by (simp only: k)
  then have l: "length (table_rows t) \<le> length (table_rows t1)"
    by simp
  have "take (length (table_rows t)) (table_rows t')
        = take (length (table_rows t)) (take (length (table_rows t1)) (table_rows t'))"
    using l by (simp add: min_def)
  also have "\<dots> = take (length (table_rows t)) (table_rows t1)"
    using Cons.IH [OF 2] by simp
  finally show ?case using k by simp
qed

lemma importExtensions_keeps_stored:
  "importExtensions extensionsData t = Some (Inr (t', m)) \<Longrightarrow>
   take (length (table_rows t)) (table_rows t') = table_rows t"
  by (auto simp: importExtensions_def dest: insert_batches_keeps)

text \<open>
  C4 (what the code does at the failing input). The table holds the extension
  \<^verbatim>\<open>VK_KHR_swapchain\<close> with date 2019-01-01 and both flags false; the input file gives it
  the date 2020-01-01 and both URLs, so the values computed from the file are that date and
  both flags true. After the import the stored row is what it was: each column is
  assigned its own stored value. The returned row does reach the lookup map, with the id
  of the stored row.
\<close>

theorem importExtensions_conflict_not_overwritten:
  "(case importExtensions
      [\<lparr>json_name = ascii ''VK_KHR_swapchain'', coverage = ascii ''<span>95.0</span>'',
        coverage_unsupported = [], features_url = Some (ascii ''f''),
        properties_url = Some (ascii ''p''), date = ascii ''2020-01-01''\<rparr>]
      \<lparr>table_rows = [\<lparr>name = ascii ''VK_KHR_swapchain'', dateAdded = Some (ascii ''2019-01-01''),
                       hasFeatures = False, hasProperties = False, row_id = 1\<rparr>],
       next_id = 2\<rparr>
    of Some (Inr (t', extensionMap)) \<Rightarrow>
         table_rows t' = [\<lparr>name = ascii ''VK_KHR_swapchain'', dateAdded = Some (ascii ''2019-01-01''),
                           hasFeatures = False, hasProperties = False, row_id = 1\<rparr>] \<and>
         extensionMap (ascii ''VK_KHR_swapchain'') = Some 1
     | _ \<Rightarrow> False) \<and>
   extensionValues
      [\<lparr>json_name = ascii ''VK_KHR_swapchain'', coverage = ascii ''<span>95.0</span>'',
        coverage_unsupported = [], features_url = Some (ascii ''f''),
        properties_url = Some (ascii ''p''), date = ascii ''2020-01-01''\<rparr>]
    = [\<lparr>name = ascii ''VK_KHR_swapchain'', dateAdded = Some (ascii ''2020-01-01''),
         hasFeatures = True, hasProperties = True\<rparr>]"
  by code_simp

subsection \<open>Staging the rows of a batch\<close>

lemma extend_fields [simp]:
  "deviceValues (extend st c) = deviceValues st @ deviceValues c"
  "deviceExtValues (extend st c) = deviceExtValues st @ deviceExtValues c"
  "deviceLimitsValues (extend st c) = deviceLimitsValues st @ deviceLimitsValues c"
  "coreFeaturesValues (extend st c) = coreFeaturesValues st @ coreFeaturesValues c"
  "corePropsValues (extend st c) = corePropsValues st @ corePropsValues c"
  "extFeaturesValues (extend st c) = extFeaturesValues st @ extFeaturesValues c"
  "extPropsValues (extend st c) = extPropsValues st @ extPropsValues c"
  "totalErrors (extend st c) = totalErrors st"
  by (simp_all add: extend_def)

lemma no_rows_fields [simp]:
  "deviceValues no_rows = []" "deviceExtValues no_rows = []" "deviceLimitsValues no_rows = []"
  "coreFeaturesValues no_rows = []" "corePropsValues no_rows = []" "extFeaturesValues no_rows = []"
  "extPropsValues no_rows = []" "totalErrors no_rows = 0"
  by (simp_all add: no_rows_def)

lemma extend_no_rows [simp]: "extend st no_rows = st"
  by (rule staged.equality; simp)

lemma extend_assoc: "extend (extend st a) b = extend st (extend a b)"
  by (rule staged.equality; simp add: extend_def)

lemma additiveI: "(\<And>st. f st = (extend st (fst (f no_rows)), snd (f no_rows))) \<Longrightarrow> additive f"
  unfolding additive_def by (rule allI)

lemma additiveD: "additive f \<Longrightarrow> f st = (extend st (fst (f no_rows)), snd (f no_rows))"
  unfolding additive_def by (rule spec)

lemma additive_skip: "additive (\<lambda>st. (st, e))"
  by (simp add: additive_def)

lemma additive_next:
  assumes "additive f" "additive g"
  shows "additive (\<lambda>st. next_stmt (f st) g)"
proof (rule additiveI)
  fix st
  obtain a ea where a: "f no_rows = (a, ea)" by (cases "f no_rows")
  have fs: "f st = (extend st a, ea)" using additiveD [OF assms(1), of st] a by simp
  show "next_stmt (f st) g = (extend st (fst (next_stmt (f no_rows) g)), snd (next_stmt (f no_rows) g))"
  proof (cases ea)
    case (Some e)
    with a fs show ?thesis by (simp add: next_stmt_def)
  next
    case None
    have "g (extend st a) = (extend (extend st a) (fst (g no_rows)), snd (g no_rows))"
      by (rule additiveD [OF assms(2)])
    moreover have "g a = (extend a (fst (g no_rows)), snd (g no_rows))"
      by (rule additiveD [OF assms(2)])
    ultimately show ?thesis
      using None a fs by (simp add: next_stmt_def extend_assoc)
  qed
qed

lemma push_as_extend:
  "st\<lparr>deviceValues := deviceValues st @ r1\<rparr> = extend st (no_rows\<lparr>deviceValues := r1\<rparr>)"
  "st\<lparr>deviceExtValues := deviceExtValues st @ r2\<rparr> = extend st (no_rows\<lparr>deviceExtValues := r2\<rparr>)"
  "st\<lparr>deviceLimitsValues := deviceLimitsValues st @ r3\<rparr>
     = extend st (no_rows\<lparr>deviceLimitsValues := r3\<rparr>)"
  "st\<lparr>coreFeaturesValues := coreFeaturesValues st @ r4\<rparr>
     = extend st (no_rows\<lparr>coreFeaturesValues := r4\<rparr>)"
  "st\<lparr>corePropsValues := corePropsValues st @ r5\<rparr> = extend st (no_rows\<lparr>corePropsValues := r5\<rparr>)"
  "st\<lparr>extFeaturesValues := extFeaturesValues st @ r6\<rparr>
     = extend st (no_rows\<lparr>extFeaturesValues := r6\<rparr>)"
  "st\<lparr>extPropsValues := extPropsValues st @ r7\<rparr> = extend st (no_rows\<lparr>extPropsValues := r7\<rparr>)"
  by (rule staged.equality; simp)+

lemma additive_push_device: "additive (push_device report)"
  by (rule additiveI) (simp add: push_device_def push_as_extend split: sum.splits)

lemma additive_push_limits: "additive (push_limits report)"
  by (rule additiveI) (simp add: push_limits_def push_as_extend split: sum.splits)

lemma additive_push_core_features: "additive (push_core_features report cv cd)"
  by (rule additiveI) (simp add: push_core_features_def push_as_extend split: sum.splits)

lemma additive_push_core_props: "additive (push_core_props report cv cd)"
  by (rule additiveI) (simp add: push_core_props_def push_as_extend split: sum.splits)

lemma additive_stage_core: "additive (stage_core report cvs)"
proof (induction cvs)
  case Nil
  show ?case using additive_skip [of None] by simp
next
  case (Cons cv cvs)
  show ?case
  proof (cases "get report cv")
    case (Inl e)
    then show ?thesis using additive_skip [of "Some e"] by simp
  next
    case (Inr cd)
    have "additive (\<lambda>st. next_stmt (next_stmt (push_core_features report cv cd st)
              (push_core_props report cv cd)) (stage_core report cvs))"
      by (intro additive_next additive_push_core_features additive_push_core_props Cons.IH)
    with Inr show ?thesis by simp
  qed
qed

lemma push_extensions_extend:
  "push_extensions em report xs st
   = (extend st (fst (push_extensions em report xs no_rows)), snd (push_extensions em report xs no_rows))"
proof (induction xs arbitrary: st)
  case Nil
  then show ?case by simp
next
  case (Cons x xs)
  have e: "extend (st\<lparr>deviceExtValues := deviceExtValues st @ [row]\<rparr>) c
           = extend st (extend (no_rows\<lparr>deviceExtValues := [row]\<rparr>) c)" for row c
    by (rule staged.equality; simp)
  have a: "push_extensions em report xs (st\<lparr>deviceExtValues := deviceExtValues st @ [row]\<rparr>)
           = (extend st (fst (push_extensions em report xs (no_rows\<lparr>deviceExtValues := [row]\<rparr>))),
              snd (push_extensions em report xs (no_rows\<lparr>deviceExtValues := [row]\<rparr>)))" for row
    by (subst Cons.IH, subst (2 3) Cons.IH) (simp add: e)
  show ?case
    using Cons.IH [of st] by (simp add: a split: sum.splits option.splits)
qed

lemma push_ext_features_extend:
  "push_ext_features report xs st
   = (extend st (fst (push_ext_features report xs no_rows)), snd (push_ext_features report xs no_rows))"
proof (induction xs arbitrary: st)
  case Nil
  then show ?case by simp
next
  case (Cons x xs)
  have e: "extend (st\<lparr>extFeaturesValues := extFeaturesValues st @ [row]\<rparr>) c
           = extend st (extend (no_rows\<lparr>extFeaturesValues := [row]\<rparr>) c)" for row c
    by (rule staged.equality; simp)
  have a: "push_ext_features report xs (st\<lparr>extFeaturesValues := extFeaturesValues st @ [row]\<rparr>)
           = (extend st (fst (push_ext_features report xs (no_rows\<lparr>extFeaturesValues := [row]\<rparr>))),
              snd (push_ext_features report xs (no_rows\<lparr>extFeaturesValues := [row]\<rparr>)))" for row
    by (subst Cons.IH, subst (2 3) Cons.IH) (simp add: e)
  show ?case
    using Cons.IH [of st] by (simp add: a split: sum.splits option.splits)
qed

lemma push_ext_props_extend:
  "push_ext_props report xs st
   = (extend st (fst (push_ext_props report xs no_rows)), snd (push_ext_props report xs no_rows))"
proof (induction xs arbitrary: st)
  case Nil
  then show ?case by simp
next
  case (Cons x xs)
  have e: "extend (st\<lparr>extPropsValues := extPropsValues st @ [row]\<rparr>) c
           = extend st (extend (no_rows\<lparr>extPropsValues := [row]\<rparr>) c)" for row c
    by (rule staged.equality; simp)
  have a: "push_ext_props report xs (st\<lparr>extPropsValues := extPropsValues st @ [row]\<rparr>)
           = (extend st (fst (push_ext_props report xs (no_rows\<lparr>extPropsValues := [row]\<rparr>))),
              snd (push_ext_props report xs (no_rows\<lparr>extPropsValues := [row]\<rparr>)))" for row
    by (subst Cons.IH, subst (2 3) Cons.IH) (simp add: e)
  show ?case
    using Cons.IH [of st] by (simp add: a split: sum.splits option.splits)
qed

lemma additive_stage_extensions: "additive (stage_extensions em report)"
proof (rule additiveI)
  fix st
  show "stage_extensions em report st
        = (extend st (fst (stage_extensions em report no_rows)), snd (stage_extensions em report no_rows))"
    using push_extensions_extend [of em report _ st]
    by (auto simp: stage_extensions_def split: sum.splits)
qed

lemma additive_stage_extended_features: "additive (stage_extended push_ext_features key report)"
proof (rule additiveI)
  fix st
  show "stage_extended push_ext_features key report st
        = (extend st (fst (stage_extended push_ext_features key report no_rows)),
           snd (stage_extended push_ext_features key report no_rows))"
    using push_ext_features_extend [of report _ st]
    by (auto simp: stage_extended_def split: sum.splits)
qed

lemma additive_stage_extended_props: "additive (stage_extended push_ext_props key report)"
proof (rule additiveI)
  fix st
  show "stage_extended push_ext_props key report st
        = (extend st (fst (stage_extended push_ext_props key report no_rows)),
           snd (stage_extended push_ext_props key report no_rows))"
    using push_ext_props_extend [of report _ st]
    by (auto simp: stage_extended_def split: sum.splits)
qed

lemma additive_try_block: "additive (try_block em report)"
  unfolding try_block_def
  by (intro additive_next additive_push_device additive_stage_extensions additive_push_limits
      additive_stage_core additive_stage_extended_features additive_stage_extended_props)

lemma try_block_extend:
  "try_block em report st
   = (extend st (fst (try_block em report no_rows)), snd (try_block em report no_rows))"
  by (rule additiveD [OF additive_try_block])

lemma try_block_first_statement:
  "device_row report = Inl e \<Longrightarrow> try_block em report st = (st, Some e)"
  by (simp add: try_block_def push_device_def next_stmt_def)

lemma stage_reports_fold:
  "stage_reports em reports st = foldl (\<lambda>s r. combine s (try_block em (Some r) no_rows)) st reports"
proof (induction reports arbitrary: st)
  case Nil
  then show ?case by simp
next
  case (Cons r rs)
  obtain c e where c: "try_block em (Some r) no_rows = (c, e)"
    by (cases "try_block em (Some r) no_rows")
  have t: "try_block em (Some r) st = (extend st c, e)"
    using try_block_extend [of em "Some r" st] c by simp
  have "combine st (c, e) = (case e of None \<Rightarrow> extend st c
          | Some x \<Rightarrow> (extend st c)\<lparr>totalErrors := totalErrors (extend st c) + 1\<rparr>)"
    by (cases e) (simp_all add: combine_def extend_def)
  then show ?case
    using Cons.IH t c by (cases e) simp_all
qed

lemma totalErrors_fold:
  "totalErrors (foldl (\<lambda>s r. combine s (f r)) st reports)
   = totalErrors st + length (filter (\<lambda>r. snd (f r) \<noteq> None) reports)"
  by (induction reports arbitrary: st) (auto simp: combine_def)

text \<open>
  C6 (amended). An error thrown while a report is transformed is caught and adds one to
  the error count, and the transformation of that report stops there: a report that fails
  while its device row is built stages nothing. The other reports of the batch are not
  affected: every report adds to the staged sets and to the count what it adds on its
  own, whatever comes before or after it in the batch.
\<close>

theorem stage_reports_contributions:
  "stage_reports extensionMap reports st
     = foldl (\<lambda>s r. combine s (try_block extensionMap (Some r) no_rows)) st reports \<and>
   totalErrors (stage_reports extensionMap reports st)
     = totalErrors st +
       length (filter (\<lambda>r. snd (try_block extensionMap (Some r) no_rows) \<noteq> None) reports) \<and>
   (device_row (Some r) = Inl e \<longrightarrow>
      try_block extensionMap (Some r) no_rows = (no_rows, Some e))"
  using stage_reports_fold [of extensionMap reports st]
    totalErrors_fold [of "\<lambda>r. try_block extensionMap (Some r) no_rows" st reports]
    try_block_first_statement [of "Some r" e extensionMap no_rows]
  by simp

theorem stage_reports_contributions_witness:
  "device_row (Some JNull) = Inl TypeError \<and>
   try_block Map.empty (Some JNull) no_rows = (no_rows, Some TypeError) \<and>
   map reportId (deviceValues (stage_reports Map.empty
      [JObject [(''_report_id'', JNumber 7), (''properties'', JObject []),
                (''environment'', JObject [])],
       JNull,
       JObject [(''_report_id'', JNumber 9), (''properties'', JObject []),
                (''environment'', JObject [])]] no_rows))
     = [Some (JNumber 7), Some (JNumber 9)] \<and>
   totalErrors (stage_reports Map.empty
      [JObject [(''_report_id'', JNumber 7), (''properties'', JObject []),
                (''environment'', JObject [])],
       JNull,
       JObject [(''_report_id'', JNumber 9), (''properties'', JObject []),
                (''environment'', JObject [])]] no_rows) = 1"
proof -
  have h: "device_row (Some JNull) = Inl TypeError"
    by (simp add: device_row_def get_def and_then_def)
  have t: "try_block Map.empty (Some JNull) no_rows = (no_rows, Some TypeError)"
    using stage_reports_contributions [of Map.empty "[]" no_rows JNull TypeError] h by simp
  have v: "map reportId (deviceValues (stage_reports Map.empty
      [JObject [(''_report_id'', JNumber 7), (''properties'', JObject []),
                (''environment'', JObject [])],
       JNull,
       JObject [(''_report_id'', JNumber 9), (''properties'', JObject []),
                (''environment'', JObject [])]] no_rows))
     = [Some (JNumber 7), Some (JNumber 9)]"
    by code_simp
  have c: "totalErrors (stage_reports Map.empty
      [JObject [(''_report_id'', JNumber 7), (''properties'', JObject []),
                (''environment'', JObject [])],
       JNull,
       JObject [(''_report_id'', JNumber 9), (''properties'', JObject []),
                (''environment'', JObject [])]] no_rows) = 1"
    by code_simp
  from h t v c show ?thesis by simp
qed

text \<open>
  The claim as written fails for a report that throws after its first statement: here the
  list of extensions holds \<^verbatim>\<open>null\<close>, the error is counted, and the device row of the
  report is in the staged set all the same.
\<close>

theorem stage_reports_partial_rows_counterexample:
  "snd (try_block Map.empty
      (Some (JObject [(''_report_id'', JNumber 7), (''properties'', JObject []),
                      (''environment'', JObject []),
                      (''extensions'', JArray [JNull])])) no_rows) = Some TypeError \<and>
   totalErrors (stage_reports Map.empty
      [JObject [(''_report_id'', JNumber 7), (''properties'', JObject []),
                (''environment'', JObject []),
                (''extensions'', JArray [JNull])]] no_rows) = 1 \<and>
   map reportId (deviceValues (stage_reports Map.empty
      [JObject [(''_report_id'', JNumber 7), (''properties'', JObject []),
                (''environment'', JObject []),
                (''extensions'', JArray [JNull])]] no_rows)) = [Some (JNumber 7)]"
  by code_simp

end
